theory Spec2Isabelle
  imports Main "HOL-Library.Word"
begin

section \<open>The Kademlia connectivity manager of bee (package kademlia)\<close>

text \<open>
  The development embeds the type \<open>Kad\<close> of package \<open>kademlia\<close> and its methods
  \<open>manage\<close>, \<open>binSaturated\<close>, \<open>recalcDepth\<close>, \<open>AddPeer\<close>, \<open>Disconnected\<close>, \<open>Remove\<close>,
  \<open>ClosestPeer\<close>, \<open>NeighborhoodDepth\<close> and \<open>Close\<close>. A Go \<open>panic\<close> is the value
  \<open>Panicked\<close> of the result type, a normal return is \<open>Returned\<close>. The methods run under
  the manager's mutex; the model runs them one after the other.
\<close>

subsection \<open>Basic types\<close>

text \<open>\<open>swarm.Address\<close> wraps a byte slice; equality is byte-wise.\<close>

type_synonym address = "8 word list"

type_synonym uint8 = "8 word"

text \<open>A transport address (\<open>ma.Multiaddr\<close>), in its textual form.\<close>

type_synonym multiaddr = string

datatype 'a outcome = Panicked string | Returned 'a

definition maxBins :: nat where
  "maxBins = 16"

definition nnLowWatermark :: nat where
  "nnLowWatermark = 2"

subsection \<open>Proximity\<close>

text \<open>
  Modelled from the spec: \<open>swarm.Proximity\<close> is not among the sources. The spec (4.1) gives
  it as the number of leading bits at which the two addresses agree, over their shared
  prefix, capped to \<open>maxBins - 1\<close>. \<open>byte_bits\<close> lists the bits of a byte, the most
  significant first.
\<close>

definition byte_bits :: "8 word \<Rightarrow> bool list" where
  "byte_bits w = map (\<lambda>i. bit w (7 - i)) [0..<8]"

text \<open>Modelled from the spec: the bits of an address, in order (see \<open>byte_bits\<close>).\<close>

definition addr_bits :: "address \<Rightarrow> bool list" where
  "addr_bits a = concat (map byte_bits a)"

text \<open>Modelled from the spec: the number of leading positions at which two bit lists agree.\<close>

fun shared_prefix :: "bool list \<Rightarrow> bool list \<Rightarrow> nat" where
  "shared_prefix (x # xs) (y # ys) = (if x = y then Suc (shared_prefix xs ys) else 0)"
| "shared_prefix _ _ = 0"

text \<open>Modelled from the spec: \<open>swarm.Proximity\<close> (spec 4.1), capped to \<open>maxBins - 1\<close>.\<close>

definition Proximity :: "address \<Rightarrow> address \<Rightarrow> nat" where
  "Proximity one other = min (maxBins - 1) (shared_prefix (addr_bits one) (addr_bits other))"

subsection \<open>The binned peer set (package pslice)\<close>

text \<open>
  Modelled from the spec: package \<open>pslice\<close> (the type \<open>PSlice\<close>) is not among the sources.
  The spec (3, 4.2) gives a binned peer set as a mapping from bin to the sequence of the
  bin's addresses, in insertion order. Here it is the list of its bins, bin 0 first.
\<close>

type_synonym PSlice = "address list list"

text \<open>Modelled from the spec: \<open>pslice.New(maxBins)\<close>, the empty set of that many bins.\<close>

definition ps_New :: "nat \<Rightarrow> PSlice" where
  "ps_New n = replicate n []"

text \<open>
  Modelled from the spec: \<open>PSlice.Add\<close> (4.2) inserts the address into the bin, after the
  addresses the bin has. The spec gives bins the range \<open>[0, maxBins)\<close> and says nothing of
  other bins; the model leaves the set as it is there.
\<close>

definition ps_Add :: "PSlice \<Rightarrow> address \<Rightarrow> uint8 \<Rightarrow> PSlice" where
  "ps_Add s addr po =
     (if unat po < length s then s[unat po := s ! unat po @ [addr]] else s)"

text \<open>
  Modelled from the spec: \<open>PSlice.Remove\<close> (4.2) removes the address from the bin if
  present and does nothing otherwise.
\<close>

definition ps_Remove :: "PSlice \<Rightarrow> address \<Rightarrow> uint8 \<Rightarrow> PSlice" where
  "ps_Remove s addr po =
     (if unat po < length s then s[unat po := removeAll addr (s ! unat po)] else s)"

text \<open>Modelled from the spec: \<open>PSlice.Exists\<close> (4.2), whether the address is in any bin.\<close>

definition ps_Exists :: "PSlice \<Rightarrow> address \<Rightarrow> bool" where
  "ps_Exists s addr = (addr \<in> set (concat s))"

text \<open>Modelled from the spec: \<open>PSlice.Length\<close> (4.2), the peer count across all bins.\<close>

definition ps_Length :: "PSlice \<Rightarrow> nat" where
  "ps_Length s = length (concat s)"

text \<open>
  The callback of a traversal, \<open>topology.EachPeerFunc\<close>: called with an address and its
  bin, it returns \<open>(stop, skipRestOfBin, err)\<close>. The Go callbacks are closures that update
  captured variables; the model passes that state through. A callback may panic.
\<close>

type_synonym 's EachPeerFunc =
  "address \<Rightarrow> uint8 \<Rightarrow> 's \<Rightarrow> ((bool \<times> bool \<times> string option) \<times> 's) outcome"

text \<open>
  Modelled from the spec: the visit of one bin by \<open>EachBin\<close> and \<open>EachBinRev\<close> (4.2), in
  insertion order. A non-nil \<open>err\<close> aborts the traversal and is handed to the caller,
  \<open>stop\<close> ends the traversal, \<open>skipRestOfBin\<close> leaves the bin. The result says whether the
  traversal is over, and with which error.
\<close>

fun each_in_bin ::
  "'s EachPeerFunc \<Rightarrow> uint8 \<Rightarrow> address list \<Rightarrow> 's \<Rightarrow> ((bool \<times> string option) \<times> 's) outcome"
where
  "each_in_bin pf po [] s = Returned ((False, None), s)"
| "each_in_bin pf po (a # as) s =
     (case pf a po s of
        Panicked msg \<Rightarrow> Panicked msg
      | Returned ((stop, skip, err), s') \<Rightarrow>
          (if err \<noteq> None then Returned ((True, err), s')
           else if stop then Returned ((True, None), s')
           else if skip then Returned ((False, None), s')
           else each_in_bin pf po as s'))"

text \<open>Modelled from the spec: the visit of the bins of a list, in the order of the list.\<close>

fun each_in_bins ::
  "'s EachPeerFunc \<Rightarrow> PSlice \<Rightarrow> nat list \<Rightarrow> 's \<Rightarrow> (string option \<times> 's) outcome"
where
  "each_in_bins pf ps [] s = Returned (None, s)"
| "each_in_bins pf ps (b # bs) s =
     (case each_in_bin pf (of_nat b) (ps ! b) s of
        Panicked msg \<Rightarrow> Panicked msg
      | Returned ((over, err), s') \<Rightarrow>
          (if over then Returned (err, s') else each_in_bins pf ps bs s'))"

text \<open>
  Modelled from the spec: \<open>PSlice.EachBin\<close> (4.2), but for the order of the bins, which
  is taken from the callers in the sources. The spec gives \<open>EachBin\<close> ascending order.
  \<open>recalcDepth\<close>, which calls it, says of its scan "start from deepest", and
  \<open>TestNeighborhoodDepth\<close> expects the depths of a scan that starts from the deepest
  bin (depth 2 for peers in bins 0, 1, 8 and 8; an ascending scan gives 1, see lemmas
  \<open>TestNeighborhoodDepth_depths\<close> and \<open>ascending_scan_fails_test\<close>). So \<open>EachBin\<close> visits
  the deepest bin first.
\<close>

definition EachBin :: "'s EachPeerFunc \<Rightarrow> PSlice \<Rightarrow> 's \<Rightarrow> (string option \<times> 's) outcome" where
  "EachBin pf ps s = each_in_bins pf ps (rev [0..<length ps]) s"

text \<open>
  Modelled from the spec: \<open>PSlice.EachBinRev\<close> (4.2), in the reverse order of \<open>EachBin\<close>:
  the shallowest bin first (\<open>manage\<close>, which calls it, says "start shallow and go
  deeper"). The spec gives it descending order. What is proved of a pass of \<open>manage\<close>
  over an arbitrary manager holds for every order of the bins (lemmas \<open>pass_any_order\<close>
  and \<open>redial_any_order\<close>).
\<close>

definition EachBinRev :: "'s EachPeerFunc \<Rightarrow> PSlice \<Rightarrow> 's \<Rightarrow> (string option \<times> 's) outcome" where
  "EachBinRev pf ps s = each_in_bins pf ps [0..<length ps] s"

text \<open>
  Modelled from the spec: the hole \<open>ShallowestEmpty\<close> looks for (4.2), the lowest bin that
  holds no peer and is strictly shallower than the deepest occupied bin; \<open>None\<close> if every
  bin up to the deepest occupied one holds a peer.
\<close>

definition shallowest_hole :: "PSlice \<Rightarrow> nat option" where
  "shallowest_hole s =
     (let occupied = filter (\<lambda>b. s ! b \<noteq> []) [0..<length s]
      in if occupied = [] then None
         else find (\<lambda>b. s ! b = []) [0..<last occupied])"

text \<open>
  Modelled from the spec: \<open>PSlice.ShallowestEmpty\<close> (4.2) returns \<open>(bin, noneFound)\<close>. The
  spec does not say which bin comes with \<open>noneFound = true\<close>; the model returns 0, and
  \<open>recalcDepth\<close> does not read it.
\<close>

definition ShallowestEmpty :: "PSlice \<Rightarrow> uint8 \<times> bool" where
  "ShallowestEmpty s =
     (case shallowest_hole s of None \<Rightarrow> (0, True) | Some b \<Rightarrow> (of_nat b, False))"

subsection \<open>The manager's state\<close>

text \<open>
  The fields of \<open>Kad\<close> that the methods read and write. \<open>manageC\<close> is a channel with one
  slot: the field says whether a wake-up is waiting in it. \<open>quit\<close> says whether \<open>Close\<close>
  has closed the quit channel. The collaborators (address book, p2p service) are passed
  to \<open>manage\<close> as functions; the logger and the unused discovery driver are left out.
\<close>

record Kad =
  base :: address
  connectedPeers :: PSlice
  knownPeers :: PSlice
  depth :: uint8
  manageC :: bool
  quit :: bool

definition New :: "address \<Rightarrow> Kad" where
  "New b = \<lparr> base = b, connectedPeers = ps_New maxBins, knownPeers = ps_New maxBins,
             depth = 0, manageC = False, quit = False \<rparr>"

text \<open>
  The non-blocking send \<open>select { case k.manageC <- struct{}{}: case <-k.quit: default: }\<close>.
  With a wake-up already waiting the send is not ready and nothing changes. With the slot
  free and \<open>quit\<close> closed, both cases are ready and the Go runtime picks one: \<open>pick\<close> is
  its choice (true for the send).
\<close>

definition wake :: "bool \<Rightarrow> Kad \<Rightarrow> Kad" where
  "wake pick k =
     (if manageC k then k
      else if quit k then (if pick then k\<lparr>manageC := True\<rparr> else k)
      else k\<lparr>manageC := True\<rparr>)"

subsection \<open>binSaturated and recalcDepth\<close>

text \<open>
  \<open>binSaturated\<close>: the test \<open>po >= depth\<close> returns false, and so does the statement after
  it; the rest of the body is never reached.
\<close>

definition binSaturated :: "Kad \<Rightarrow> uint8 \<Rightarrow> uint8 \<Rightarrow> bool" where
  "binSaturated k po d = (if po \<ge> d then False else False)"

text \<open>
  The closure \<open>recalcDepth\<close> hands to \<open>EachBin\<close>; its state is the pair of the captured
  variables \<open>peers\<close> and \<open>candidate\<close>.
\<close>

definition recalc_visit :: "(nat \<times> uint8) EachPeerFunc" where
  "recalc_visit a po st =
     (case st of (peers, candidate) \<Rightarrow>
        (let peers' = peers + 1
         in if peers' \<ge> nnLowWatermark
            then Returned ((True, False, None), (peers', po))
            else Returned ((False, False, None), (peers', candidate))))"

text \<open>
  \<open>recalcDepth\<close>, with the traversal of the connected peers as a parameter \<open>each\<close>: the
  source calls \<open>k.connectedPeers.EachBin\<close>, whose code is not among the sources, and the
  specification and the sources differ on its order.
\<close>

definition recalcDepth_with ::
  "((nat \<times> uint8) EachPeerFunc \<Rightarrow> PSlice \<Rightarrow> nat \<times> uint8 \<Rightarrow> (string option \<times> nat \<times> uint8) outcome)
     \<Rightarrow> Kad \<Rightarrow> uint8 outcome"
where
  "recalcDepth_with each k =
     (if ps_Length (connectedPeers k) \<le> nnLowWatermark then Returned 0
      else
        (case ShallowestEmpty (connectedPeers k) of (shallowestEmpty, noEmptyBins) \<Rightarrow>
           (case each recalc_visit (connectedPeers k) (0, 0) of
              Panicked msg \<Rightarrow> Panicked msg
            | Returned (_, (peers, candidate)) \<Rightarrow>
                (if noEmptyBins \<or> shallowestEmpty > candidate then Returned candidate
                 else Returned shallowestEmpty))))"

text \<open>\<open>recalcDepth\<close> as the source has it: the scan is \<open>EachBin\<close>.\<close>

definition recalcDepth :: "Kad \<Rightarrow> uint8 outcome" where
  "recalcDepth k = recalcDepth_with EachBin k"

subsection \<open>manage\<close>

text \<open>
  The closure \<open>manage\<close> hands to \<open>EachBinRev\<close>; its state is the manager. \<open>addressBook\<close>
  is \<open>k.addressBook.Get\<close> and \<open>connect\<close> is \<open>k.p2p.Connect\<close>, \<open>None\<close> standing for a
  non-nil error. After the panic on a failed \<open>Get\<close> the source has a \<open>return\<close> that is
  never reached. \<open>pick\<close> is the runtime's choice in the wake-up (see \<open>wake\<close>).
\<close>

definition manage_visit ::
  "(address \<Rightarrow> multiaddr option) \<Rightarrow> (multiaddr \<Rightarrow> address option) \<Rightarrow> bool \<Rightarrow> Kad EachPeerFunc"
where
  "manage_visit addressBook connect pick peer po k =
     (if ps_Exists (connectedPeers k) peer then Returned ((False, False, None), k)
      else if binSaturated k po (depth k) then Returned ((False, True, None), k)
      else
        (case addressBook peer of
           None \<Rightarrow> Panicked ''err''
         | Some ma \<Rightarrow>
             (case connect ma of
                None \<Rightarrow> Returned ((False, False, None), k)
              | Some _ \<Rightarrow>
                  (let k1 = k\<lparr>connectedPeers := ps_Add (connectedPeers k) peer po\<rparr>
                   in case recalcDepth k1 of
                        Panicked msg \<Rightarrow> Panicked msg
                      | Returned d \<Rightarrow>
                          Returned ((True, False, None), wake pick (k1\<lparr>depth := d\<rparr>))))))"

text \<open>
  One reconciliation pass: the body of \<open>case <-k.manageC\<close>, the traversal of the known
  peers; its error result is dropped (\<open>_ = k.knownPeers.EachBinRev(...)\<close>).
\<close>

definition manage_pass ::
  "(address \<Rightarrow> multiaddr option) \<Rightarrow> (multiaddr \<Rightarrow> address option) \<Rightarrow> bool \<Rightarrow> Kad \<Rightarrow> Kad outcome"
where
  "manage_pass addressBook connect pick k =
     (case EachBinRev (manage_visit addressBook connect pick) (knownPeers k) k of
        Panicked msg \<Rightarrow> Panicked msg
      | Returned (_, k') \<Rightarrow> Returned k')"

text \<open>What one turn of the \<open>for { select { ... } }\<close> loop of \<open>manage\<close> does.\<close>

datatype turn = Exited | Blocked | Passed Kad

text \<open>
  One turn of the loop of \<open>manage\<close>. With \<open>quit\<close> closed the goroutine returns; with a
  wake-up waiting it takes it and runs a pass; with both, the runtime picks (\<open>recv\<close> true
  for the wake-up); with neither it blocks.
\<close>

definition manage_step ::
  "(address \<Rightarrow> multiaddr option) \<Rightarrow> (multiaddr \<Rightarrow> address option) \<Rightarrow> bool \<Rightarrow> bool \<Rightarrow> Kad
     \<Rightarrow> turn outcome"
where
  "manage_step addressBook connect recv pick k =
     (let pass = (case manage_pass addressBook connect pick (k\<lparr>manageC := False\<rparr>) of
                    Panicked msg \<Rightarrow> Panicked msg
                  | Returned k' \<Rightarrow> Returned (Passed k'))
      in if quit k \<and> manageC k then (if recv then pass else Returned Exited)
         else if quit k then Returned Exited
         else if manageC k then pass
         else Returned Blocked)"

subsection \<open>The exported methods\<close>

text \<open>
  \<open>AddPeer\<close> returns an \<open>error\<close>; the only \<open>return\<close> of the source returns nil (\<open>None\<close>).
  The context argument is not used by the source and is left out.
\<close>

definition AddPeer :: "bool \<Rightarrow> Kad \<Rightarrow> address \<Rightarrow> (string option \<times> Kad) outcome" where
  "AddPeer pick k addr =
     (let e = ps_Exists (connectedPeers k) addr;
          e2 = ps_Exists (knownPeers k) addr
      in if e \<or> e2 then Panicked ''peer already connected''
         else
           (let po = Proximity (base k) addr
            in Returned (None, wake pick (k\<lparr>knownPeers := ps_Add (knownPeers k) addr (of_nat po)\<rparr>))))"

definition Disconnected :: "bool \<Rightarrow> Kad \<Rightarrow> address \<Rightarrow> Kad outcome" where
  "Disconnected pick k addr =
     (let po = of_nat (Proximity (base k) addr);
          k1 = k\<lparr>connectedPeers := ps_Remove (connectedPeers k) addr po\<rparr>
      in case recalcDepth k1 of
           Panicked msg \<Rightarrow> Panicked msg
         | Returned d \<Rightarrow> Returned (wake pick (k1\<lparr>depth := d\<rparr>)))"

definition Remove :: "bool \<Rightarrow> Kad \<Rightarrow> address \<Rightarrow> Kad outcome" where
  "Remove pick k addr =
     (let po = Proximity (base k) addr;
          k1 = k\<lparr>connectedPeers := ps_Remove (connectedPeers k) addr (of_nat po)\<rparr>
      in case recalcDepth k1 of
           Panicked msg \<Rightarrow> Panicked msg
         | Returned d \<Rightarrow> Returned (wake pick (k1\<lparr>depth := d\<rparr>)))"

definition ClosestPeer :: "Kad \<Rightarrow> address \<Rightarrow> (address \<times> string option) outcome" where
  "ClosestPeer k addr = Panicked ''not implemented''"

definition NeighborhoodDepth :: "Kad \<Rightarrow> uint8" where
  "NeighborhoodDepth k = depth k"

text \<open>\<open>Close\<close> closes the quit channel; Go panics when a closed channel is closed again.\<close>

definition Close :: "Kad \<Rightarrow> (string option \<times> Kad) outcome" where
  "Close k =
     (if quit k then Panicked ''close of closed channel''
      else Returned (None, k\<lparr>quit := True\<rparr>))"

subsection \<open>Reachable states\<close>

text \<open>
  The states a manager goes through: \<open>New\<close> creates it, and each exported method and each
  turn of \<open>manage\<close> that returns takes it to the next state. The address book and the
  dialer may answer differently at every turn.
\<close>

inductive reachable :: "Kad \<Rightarrow> bool" where
  r_New: "reachable (New b)"
| r_AddPeer: "reachable k \<Longrightarrow> AddPeer pick k addr = Returned (err, k') \<Longrightarrow> reachable k'"
| r_Disconnected: "reachable k \<Longrightarrow> Disconnected pick k addr = Returned k' \<Longrightarrow> reachable k'"
| r_Remove: "reachable k \<Longrightarrow> Remove pick k addr = Returned k' \<Longrightarrow> reachable k'"
| r_manage: "reachable k \<Longrightarrow> manage_step addressBook connect recv pick k = Returned (Passed k')
               \<Longrightarrow> reachable k'"
| r_Close: "reachable k \<Longrightarrow> Close k = Returned (err, k') \<Longrightarrow> reachable k'"

subsection \<open>The depth as the prose of the specification gives it\<close>

text \<open>
  The scan of the specification: over the bins \<open>bs\<close> in their order, with the running
  peer count \<open>p\<close>, the bin at which the count first reaches the low watermark. The
  definitions of this subsection follow the words of the specification; the theorems
  compare them with \<open>recalcDepth\<close>.
\<close>

fun first_reaching :: "PSlice \<Rightarrow> nat list \<Rightarrow> nat \<Rightarrow> nat option" where
  "first_reaching s [] p = None"
| "first_reaching s (b # bs) p =
     (if nnLowWatermark \<le> p + length (s ! b) then Some b
      else first_reaching s bs (p + length (s ! b)))"

text \<open>The number of peers in the bins \<open>bs\<close>.\<close>

definition bins_count :: "PSlice \<Rightarrow> nat list \<Rightarrow> nat" where
  "bins_count s bs = sum_list (map (\<lambda>b. length (s ! b)) bs)"

text \<open>The running peer count of an ascending scan after bin \<open>b\<close>: the peers in bins 0 to \<open>b\<close>.\<close>

definition running_count :: "PSlice \<Rightarrow> nat \<Rightarrow> nat" where
  "running_count s b = length (concat (take (Suc b) s))"

text \<open>
  The running peer count of a scan from the deepest bin after bin \<open>b\<close>: the peers in bin
  \<open>b\<close> and the deeper bins.
\<close>

definition running_count_down :: "PSlice \<Rightarrow> nat \<Rightarrow> nat" where
  "running_count_down s b = length (concat (drop b s))"

text \<open>A hole: a bin with no peers that lies before an occupied bin.\<close>

definition hole :: "PSlice \<Rightarrow> nat \<Rightarrow> bool" where
  "hole s h = (h < length s \<and> s ! h = [] \<and> (\<exists>d. h < d \<and> d < length s \<and> s ! d \<noteq> []))"

text \<open>The shallowest hole.\<close>

definition shallowest_empty :: "PSlice \<Rightarrow> nat \<Rightarrow> bool" where
  "shallowest_empty s h = (hole s h \<and> (\<forall>b<h. \<not> hole s b))"

subsection \<open>Example managers\<close>

text \<open>
  A base address and peers at proximity 0, 1 and 8, as the test \<open>TestNeighborhoodDepth\<close>
  draws them.
\<close>

definition base0 :: address where "base0 = [0x00, 0x00]"
definition peer0 :: address where "peer0 = [0x80, 0x00]"
definition peer1 :: address where "peer1 = [0x40, 0x00]"
definition peer8a :: address where "peer8a = [0x00, 0x80]"
definition peer8b :: address where "peer8b = [0x00, 0xC0]"

text \<open>An address book that knows every peer, and a dialer that reaches every peer.\<close>

definition book_all :: "address \<Rightarrow> multiaddr option" where
  "book_all a = Some ''/ip4/127.0.0.1/tcp/7070''"

definition dial_ok :: "multiaddr \<Rightarrow> address option" where
  "dial_ok ma = Some []"

text \<open>The manager with one peer connected in bin 0, one in bin 1 and two in bin 8.\<close>

definition kad_0_1_8_8 :: Kad where
  "kad_0_1_8_8 =
     \<lparr> base = base0,
       connectedPeers = [[peer0], [peer1], [], [], [], [], [], [], [peer8a, peer8b],
                         [], [], [], [], [], [], []],
       knownPeers = [[peer0], [peer1], [], [], [], [], [], [], [peer8a, peer8b],
                     [], [], [], [], [], [], []],
       depth = 2, manageC = False, quit = False \<rparr>"

definition book_none :: "address \<Rightarrow> multiaddr option" where
  "book_none a = None"

text \<open>Two more peers at proximity 0 and two at proximity 2.\<close>

definition peer0b :: address where "peer0b = [0xC0, 0x00]"
definition peer2a :: address where "peer2a = [0x20, 0x00]"
definition peer2b :: address where "peer2b = [0x30, 0x00]"

text \<open>The manager after \<open>AddPeer\<close> of \<open>peer0\<close>: the peer is known, a wake-up is waiting.\<close>

definition kad_known0 :: Kad where
  "kad_known0 =
     \<lparr> base = base0,
       connectedPeers = [[], [], [], [], [], [], [], [], [], [], [], [], [], [], [], []],
       knownPeers = [[peer0], [], [], [], [], [], [], [], [], [], [], [], [], [], [], []],
       depth = 0, manageC = True, quit = False \<rparr>"

text \<open>The same manager after the pass that dials \<open>peer0\<close>.\<close>

definition kad_conn0 :: Kad where
  "kad_conn0 =
     \<lparr> base = base0,
       connectedPeers = [[peer0], [], [], [], [], [], [], [], [], [], [], [], [], [], [], []],
       knownPeers = [[peer0], [], [], [], [], [], [], [], [], [], [], [], [], [], [], []],
       depth = 0, manageC = True, quit = False \<rparr>"

text \<open>A manager that knows \<open>peer0\<close> and \<open>peer1\<close> and is connected to neither.\<close>

definition kad_known01 :: Kad where
  "kad_known01 =
     \<lparr> base = base0,
       connectedPeers = [[], [], [], [], [], [], [], [], [], [], [], [], [], [], [], []],
       knownPeers = [[peer0], [peer1], [], [], [], [], [], [], [], [], [], [], [], [], [], []],
       depth = 0, manageC = False, quit = False \<rparr>"

text \<open>The same manager with \<open>peer0\<close> connected and a wake-up waiting.\<close>

definition kad_known01_conn0 :: Kad where
  "kad_known01_conn0 =
     \<lparr> base = base0,
       connectedPeers = [[peer0], [], [], [], [], [], [], [], [], [], [], [], [], [], [], []],
       knownPeers = [[peer0], [peer1], [], [], [], [], [], [], [], [], [], [], [], [], [], []],
       depth = 0, manageC = True, quit = False \<rparr>"

text \<open>The same manager with \<open>peer1\<close> connected instead, and a wake-up waiting.\<close>

definition kad_known01_conn1 :: Kad where
  "kad_known01_conn1 =
     \<lparr> base = base0,
       connectedPeers = [[], [peer1], [], [], [], [], [], [], [], [], [], [], [], [], [], []],
       knownPeers = [[peer0], [peer1], [], [], [], [], [], [], [], [], [], [], [], [], [], []],
       depth = 0, manageC = True, quit = False \<rparr>"

text \<open>The manager \<open>kad_0_1_8_8\<close> after \<open>Remove\<close> of \<open>peer1\<close>.\<close>

definition kad_0_8_8 :: Kad where
  "kad_0_8_8 =
     \<lparr> base = base0,
       connectedPeers = [[peer0], [], [], [], [], [], [], [], [peer8a, peer8b],
                         [], [], [], [], [], [], []],
       knownPeers = [[peer0], [peer1], [], [], [], [], [], [], [peer8a, peer8b],
                     [], [], [], [], [], [], []],
       depth = 1, manageC = True, quit = False \<rparr>"

text \<open>A manager with two peers connected in bin 0, one in bin 1 and two in bin 2.\<close>

definition kad_2_1_2 :: Kad where
  "kad_2_1_2 =
     \<lparr> base = base0,
       connectedPeers = [[peer0, peer0b], [peer1], [peer2a, peer2b], [], [], [], [], [],
                         [], [], [], [], [], [], [], []],
       knownPeers = [[peer0, peer0b], [peer1], [peer2a, peer2b], [], [], [], [], [],
                     [], [], [], [], [], [], [], []],
       depth = 2, manageC = False, quit = False \<rparr>"

subsection \<open>The visits of a traversal\<close>

text \<open>
  The traversal of the bins \<open>bs\<close> meets the pairs of \<open>visits\<close>, in this order. For a
  callback that never asks to skip a bin and never returns an error (\<open>plain\<close>), the
  traversal is the run of the callback over these pairs up to the first \<open>stop\<close>
  (\<open>run_visits\<close>; its result says whether the callback stopped it). These three
  definitions serve the proofs; lemma \<open>each_in_bins_run\<close> ties them to \<open>each_in_bins\<close>.
\<close>

definition visits :: "PSlice \<Rightarrow> nat list \<Rightarrow> (address \<times> uint8) list" where
  "visits s bs = concat (map (\<lambda>b. map (\<lambda>a. (a, of_nat b)) (s ! b)) bs)"

fun run_visits :: "'s EachPeerFunc \<Rightarrow> (address \<times> uint8) list \<Rightarrow> 's \<Rightarrow> (bool \<times> 's) outcome" where
  "run_visits pf [] st = Returned (False, st)"
| "run_visits pf (v # vs) st =
     (case pf (fst v) (snd v) st of
        Panicked msg \<Rightarrow> Panicked msg
      | Returned ((stop, skip, err), st') \<Rightarrow>
          (if stop then Returned (True, st') else run_visits pf vs st'))"

definition plain :: "'s EachPeerFunc \<Rightarrow> bool" where
  "plain pf = (\<forall>a po st stop skip err st'.
     pf a po st = Returned ((stop, skip, err), st') \<longrightarrow> \<not> skip \<and> err = None)"

subsection \<open>Well-formed managers\<close>

text \<open>Every address of a bin has the proximity of the bin to the base address.\<close>

definition binned :: "address \<Rightarrow> PSlice \<Rightarrow> bool" where
  "binned b s = list_all (\<lambda>i. list_all (\<lambda>a. Proximity b a = i) (s ! i)) [0..<length s]"

text \<open>
  What holds of every reachable manager (lemma \<open>reachable_kad_inv\<close>): both peer sets
  have \<open>maxBins\<close> bins, no bin of the connected set holds an address twice, every
  address is in the bin of its proximity, every connected peer is known, and the depth
  is the one \<open>recalcDepth\<close> computes from the connected set.
\<close>

definition kad_inv :: "Kad \<Rightarrow> bool" where
  "kad_inv k =
     (length (connectedPeers k) = maxBins \<and> length (knownPeers k) = maxBins
      \<and> list_all distinct (connectedPeers k)
      \<and> binned (base k) (connectedPeers k) \<and> binned (base k) (knownPeers k)
      \<and> list_all (ps_Exists (knownPeers k)) (concat (connectedPeers k))
      \<and> recalcDepth k = Returned (depth k))"

text \<open>
  A pass passes over the peer \<open>q\<close>: it is connected, or the address book resolves it and
  the dial fails.
\<close>

definition no_dial ::
  "(address \<Rightarrow> multiaddr option) \<Rightarrow> (multiaddr \<Rightarrow> address option) \<Rightarrow> Kad \<Rightarrow> address \<Rightarrow> bool"
where
  "no_dial addressBook connect k q =
     (ps_Exists (connectedPeers k) q
      \<or> (case addressBook q of None \<Rightarrow> False | Some ma \<Rightarrow> connect ma = None))"

text \<open>A pass passes over every known peer other than \<open>p\<close>.\<close>

definition settled ::
  "(address \<Rightarrow> multiaddr option) \<Rightarrow> (multiaddr \<Rightarrow> address option) \<Rightarrow> Kad \<Rightarrow> address \<Rightarrow> bool"
where
  "settled addressBook connect k p =
     list_all (\<lambda>q. q = p \<or> no_dial addressBook connect k q) (concat (knownPeers k))"

text \<open>
  The depth \<open>recalcDepth\<close> computes for connected bins of the sizes \<open>ns\<close> (it reads the
  sizes of the bins only, lemma \<open>recalcDepth_sizes\<close>).
\<close>

definition depth_of_sizes :: "nat list \<Rightarrow> uint8 outcome" where
  "depth_of_sizes ns = recalcDepth ((New [])\<lparr>connectedPeers := map (\<lambda>n. replicate n []) ns\<rparr>)"

text \<open>The same with an ascending scan.\<close>

definition ascending_depth_of_sizes :: "nat list \<Rightarrow> uint8 outcome" where
  "ascending_depth_of_sizes ns =
     recalcDepth_with EachBinRev ((New [])\<lparr>connectedPeers := map (\<lambda>n. replicate n []) ns\<rparr>)"

text \<open>With at most \<open>nnLowWatermark\<close> connected peers, the depth is 0.\<close>

definition depth_zero_if_few :: "Kad \<Rightarrow> bool" where
  "depth_zero_if_few k =
     (if ps_Length (connectedPeers k) \<le> nnLowWatermark
      then depth k = 0 \<and> NeighborhoodDepth k = 0 else True)"

subsection \<open>Facts about proximity\<close>

lemma Proximity_less_maxBins: "Proximity a b < maxBins"
  by (simp add: Proximity_def maxBins_def)

subsection \<open>The scan of recalcDepth\<close>

lemma each_in_bin_recalc:
  "p < nnLowWatermark \<Longrightarrow>
   each_in_bin recalc_visit po as (p, c) =
     (if nnLowWatermark \<le> p + length as then Returned ((True, None), (nnLowWatermark, po))
      else Returned ((False, None), (p + length as, c)))"
proof (induction as arbitrary: p c)
  case Nil
  then show ?case by simp
next
  case (Cons a as)
  show ?case
  proof (cases "Suc p < nnLowWatermark")
    case True
    then show ?thesis using Cons.IH [of "Suc p" c] by (simp add: recalc_visit_def)
  next
    case False
    with Cons.prems have "Suc p = nnLowWatermark" by simp
    then show ?thesis by (simp add: recalc_visit_def)
  qed
qed

lemma bins_count_Nil: "bins_count s [] = 0"
  by (simp add: bins_count_def)

lemma bins_count_Cons: "bins_count s (b # bs) = length (s ! b) + bins_count s bs"
  by (simp add: bins_count_def)

lemma each_in_bins_recalc:
  "p < nnLowWatermark \<Longrightarrow>
   each_in_bins recalc_visit s bs (p, c) =
     (case first_reaching s bs p of
        Some b \<Rightarrow> Returned (None, (nnLowWatermark, of_nat b))
      | None \<Rightarrow> Returned (None, (p + bins_count s bs, c)))"
proof (induction bs arbitrary: p c)
  case Nil
  then show ?case by (simp add: bins_count_Nil)
next
  case (Cons b bs)
  then show ?case
    by (simp add: each_in_bin_recalc bins_count_Cons add.assoc split: option.split)
qed

lemma first_reaching_None:
  "first_reaching s bs p = None \<Longrightarrow> p < nnLowWatermark \<Longrightarrow> p + bins_count s bs < nnLowWatermark"
proof (induction bs arbitrary: p)
  case Nil
  then show ?case by (simp add: bins_count_Nil)
next
  case (Cons b bs)
  from Cons.prems have small: "p + length (s ! b) < nnLowWatermark"
    and rest: "first_reaching s bs (p + length (s ! b)) = None"
    by (auto split: if_splits)
  from Cons.IH [OF rest small] show ?case
    by (simp add: bins_count_Cons add.assoc)
qed

lemma bins_count_all: "bins_count s [0..<length s] = ps_Length s"
proof -
  have "map (\<lambda>b. length (s ! b)) [0..<length s] = map length (map ((!) s) [0..<length s])"
    by simp
  then show ?thesis
    by (simp only: bins_count_def ps_Length_def length_concat map_nth)
qed

lemma bins_count_rev: "bins_count s (rev bs) = bins_count s bs"
  by (simp add: bins_count_def sum_list_rev flip: rev_map)

lemma scan_recalc:
  assumes big: "nnLowWatermark < ps_Length s"
    and bs: "bins_count s bs = ps_Length s"
  shows "\<exists>c. first_reaching s bs 0 = Some c \<and>
       each_in_bins recalc_visit s bs (0, 0) = Returned (None, (nnLowWatermark, of_nat c))"
proof -
  have pos: "0 < nnLowWatermark" by (simp add: nnLowWatermark_def)
  show ?thesis
  proof (cases "first_reaching s bs 0")
    case None
    from first_reaching_None [OF None pos] big show ?thesis
      by (simp add: bs)
  next
    case (Some c)
    then show ?thesis
      by (simp add: each_in_bins_recalc [OF pos])
  qed
qed

lemma EachBin_recalc:
  "nnLowWatermark < ps_Length s \<Longrightarrow>
   \<exists>c. first_reaching s (rev [0..<length s]) 0 = Some c \<and>
       EachBin recalc_visit s (0, 0) = Returned (None, (nnLowWatermark, of_nat c))"
  unfolding EachBin_def by (rule scan_recalc) (simp_all add: bins_count_rev bins_count_all)

lemma EachBinRev_recalc:
  "nnLowWatermark < ps_Length s \<Longrightarrow>
   \<exists>c. first_reaching s [0..<length s] 0 = Some c \<and>
       EachBinRev recalc_visit s (0, 0) = Returned (None, (nnLowWatermark, of_nat c))"
  unfolding EachBinRev_def by (rule scan_recalc) (simp_all add: bins_count_all)


lemma running_count_Suc:
  "b < length s \<Longrightarrow> length (concat (take b s)) + length (s ! b) = running_count s b"
  by (simp add: running_count_def take_Suc_conv_app_nth)

lemma running_count_mono: "a \<le> b \<Longrightarrow> running_count s a \<le> running_count s b"
proof -
  assume "a \<le> b"
  then have "take (Suc b) s = take (Suc a) s @ drop (Suc a) (take (Suc b) s)"
    by (metis Suc_le_mono append_take_drop_id min.absorb1 take_take)
  then have "concat (take (Suc b) s) = concat (take (Suc a) s) @ concat (drop (Suc a) (take (Suc b) s))"
    by (metis concat_append)
  then show ?thesis by (simp add: running_count_def)
qed

lemma first_reaching_upt:
  assumes "n \<le> length s" and "p = length (concat (take i s))" and "p < nnLowWatermark"
    and "first_reaching s [i..<n] p = Some c"
  shows "i \<le> c \<and> c < n \<and> nnLowWatermark \<le> running_count s c
         \<and> length (concat (take c s)) < nnLowWatermark"
  using assms
proof (induction "n - i" arbitrary: i p)
  case 0
  then show ?case by simp
next
  case (Suc m)
  then have lt: "i < n" by simp
  then have upt: "[i..<n] = i # [Suc i..<n]" by (simp add: upt_conv_Cons)
  have il: "i < length s" using lt Suc.prems(1) by simp
  have rc: "p + length (s ! i) = running_count s i"
    using running_count_Suc [OF il] Suc.prems(2) by simp
  show ?case
  proof (cases "nnLowWatermark \<le> p + length (s ! i)")
    case True
    with Suc.prems(4) upt have "c = i" by simp
    with True rc lt Suc.prems(2,3) show ?thesis by simp
  next
    case False
    with Suc.prems(4) upt have rest: "first_reaching s [Suc i..<n] (p + length (s ! i)) = Some c"
      by simp
    have m: "m = n - Suc i" using Suc.hyps(2) by simp
    have p': "p + length (s ! i) = length (concat (take (Suc i) s))"
      using rc by (simp add: running_count_def)
    from False have small: "p + length (s ! i) < nnLowWatermark" by simp
    from Suc.hyps(1) [OF m Suc.prems(1) p' small rest] show ?thesis by simp
  qed
qed

lemma sorted_le_last: "sorted xs \<Longrightarrow> (x::nat) \<in> set xs \<Longrightarrow> x \<le> last xs"
  by (induction xs) auto

lemma shallowest_hole_Some:
  assumes "shallowest_hole s = Some h"
  shows "shallowest_empty s h \<and> (\<forall>b<h. s ! b \<noteq> [])"
proof -
  let ?occ = "filter (\<lambda>b. s ! b \<noteq> []) [0..<length s]"
  from assms have ne: "?occ \<noteq> []" and f: "find (\<lambda>b. s ! b = []) [0..<last ?occ] = Some h"
    by (auto simp: shallowest_hole_def Let_def split: if_splits)
  from ne have "last ?occ \<in> set ?occ" by (rule last_in_set)
  then have d: "last ?occ < length s" "s ! last ?occ \<noteq> []" by auto
  from f have h: "h < last ?occ" "s ! h = []" and least: "\<forall>b<h. s ! b \<noteq> []"
    by (auto simp: find_Some_iff)
  from h d have "hole s h" by (auto simp: hole_def)
  moreover from least have "\<forall>b<h. \<not> hole s b" by (simp add: hole_def)
  ultimately show ?thesis using least by (simp add: shallowest_empty_def)
qed

lemma shallowest_hole_None:
  assumes "shallowest_hole s = None"
  shows "\<not> hole s h"
proof
  assume "hole s h"
  then obtain d where hd: "h < length s" "s ! h = []" "h < d" "d < length s" "s ! d \<noteq> []"
    by (auto simp: hole_def)
  let ?occ = "filter (\<lambda>b. s ! b \<noteq> []) [0..<length s]"
  from hd have din: "d \<in> set ?occ" by simp
  then have "0 < length ?occ" by (rule length_pos_if_in_set)
  then have ne: "?occ \<noteq> []" unfolding length_greater_0_conv .
  have "sorted ?occ" by (simp add: sorted_wrt_filter)
  from sorted_le_last [OF this din] have "d \<le> last ?occ" .
  with hd have hin: "h \<in> set [0..<last ?occ]" by simp
  from assms have "(if ?occ = [] then None else find (\<lambda>b. s ! b = []) [0..<last ?occ]) = None"
    unfolding shallowest_hole_def Let_def .
  with ne have "find (\<lambda>b. s ! b = []) [0..<last ?occ] = None"
    by (simp only: if_False)
  then have "\<not> (\<exists>x. x \<in> set [0..<last ?occ] \<and> s ! x = [])"
    unfolding find_None_iff .
  with hin hd(2) show False by blast
qed


lemma of_nat_less_uint8:
  "a < 256 \<Longrightarrow> b < 256 \<Longrightarrow> ((of_nat a :: uint8) < of_nat b) = (a < b)"
  by (simp add: word_less_nat_alt unat_of_nat)

lemma candidate_facts:
  assumes "first_reaching s [0..<length s] 0 = Some c"
  shows "c < length s" and "nnLowWatermark \<le> running_count s c"
    and "\<forall>b<c. running_count s b < nnLowWatermark" and "s ! c \<noteq> []"
proof -
  have pos: "0 < nnLowWatermark" by (simp add: nnLowWatermark_def)
  have "0 \<le> c \<and> c < length s \<and> nnLowWatermark \<le> running_count s c
         \<and> length (concat (take c s)) < nnLowWatermark"
    by (rule first_reaching_upt [OF _ _ pos assms]) simp_all
  then have c: "c < length s" and reach: "nnLowWatermark \<le> running_count s c"
    and before: "length (concat (take c s)) < nnLowWatermark" by simp_all
  show "c < length s" by (rule c)
  show "nnLowWatermark \<le> running_count s c" by (rule reach)
  show "\<forall>b<c. running_count s b < nnLowWatermark"
  proof (intro allI impI)
    fix b assume "b < c"
    then obtain c' where c': "c = Suc c'" and "b \<le> c'" by (cases c) auto
    then have "running_count s b \<le> running_count s c'" by (simp add: running_count_mono)
    also have "\<dots> = length (concat (take c s))" by (simp add: running_count_def c')
    finally show "running_count s b < nnLowWatermark" using before by simp
  qed
  from running_count_Suc [OF c] reach before show "s ! c \<noteq> []" by auto
qed

lemma running_count_down_Cons:
  "b < length s \<Longrightarrow> length (s ! b) + running_count_down s (Suc b) = running_count_down s b"
  by (simp add: running_count_down_def flip: Cons_nth_drop_Suc)

lemma running_count_down_antimono:
  "a \<le> b \<Longrightarrow> running_count_down s b \<le> running_count_down s a"
proof -
  assume "a \<le> b"
  then have "drop a s = take (b - a) (drop a s) @ drop b s"
    by (metis add_diff_inverse_nat append_take_drop_id drop_drop linorder_not_less add.commute)
  then have "concat (drop a s) = concat (take (b - a) (drop a s)) @ concat (drop b s)"
    by (metis concat_append)
  then show ?thesis by (simp add: running_count_down_def)
qed

lemma first_reaching_down:
  assumes "m \<le> length s" and "p = running_count_down s m" and "p < nnLowWatermark"
    and "first_reaching s (rev [0..<m]) p = Some c"
  shows "c < m \<and> nnLowWatermark \<le> running_count_down s c
         \<and> running_count_down s (Suc c) < nnLowWatermark"
  using assms
proof (induction m arbitrary: p)
  case 0
  then show ?case by simp
next
  case (Suc m)
  from Suc.prems(1) have ml: "m < length s" by simp
  have rc: "length (s ! m) + p = running_count_down s m"
    using running_count_down_Cons [OF ml] Suc.prems(2) by simp
  show ?case
  proof (cases "nnLowWatermark \<le> p + length (s ! m)")
    case True
    with Suc.prems(4) have "c = m" by simp
    with True rc Suc.prems(2,3) show ?thesis by (simp add: add.commute)
  next
    case False
    with Suc.prems(4) have rest: "first_reaching s (rev [0..<m]) (p + length (s ! m)) = Some c"
      by simp
    have p': "p + length (s ! m) = running_count_down s m" using rc by (simp add: add.commute)
    from False have small: "p + length (s ! m) < nnLowWatermark" by simp
    from ml have "m \<le> length s" by simp
    from Suc.IH [OF this p' small rest] show ?thesis by simp
  qed
qed

lemma candidate_facts_down:
  assumes "first_reaching s (rev [0..<length s]) 0 = Some c"
  shows "c < length s" and "nnLowWatermark \<le> running_count_down s c"
    and "\<forall>b>c. running_count_down s b < nnLowWatermark" and "s ! c \<noteq> []"
proof -
  have pos: "0 < nnLowWatermark" by (simp add: nnLowWatermark_def)
  have "c < length s \<and> nnLowWatermark \<le> running_count_down s c
         \<and> running_count_down s (Suc c) < nnLowWatermark"
    by (rule first_reaching_down [OF _ _ pos assms]) (simp_all add: running_count_down_def)
  then have c: "c < length s" and reach: "nnLowWatermark \<le> running_count_down s c"
    and after: "running_count_down s (Suc c) < nnLowWatermark" by simp_all
  show "c < length s" by (rule c)
  show "nnLowWatermark \<le> running_count_down s c" by (rule reach)
  show "\<forall>b>c. running_count_down s b < nnLowWatermark"
  proof (intro allI impI)
    fix b assume "c < b"
    then have "Suc c \<le> b" by simp
    from running_count_down_antimono [OF this, of s] after
    show "running_count_down s b < nnLowWatermark" by simp
  qed
  from running_count_down_Cons [OF c] reach after show "s ! c \<noteq> []" by auto
qed

lemma recalcDepth_with_candidate:
  assumes len: "length (connectedPeers k) = maxBins"
    and big: "nnLowWatermark < ps_Length (connectedPeers k)"
    and scan: "each recalc_visit (connectedPeers k) (0, 0)
                 = Returned (None, (nnLowWatermark, of_nat c))"
    and c16: "c < maxBins" and occ: "connectedPeers k ! c \<noteq> []"
  shows "((\<exists>b\<le>c. connectedPeers k ! b = []) = (\<exists>h\<le>c. shallowest_empty (connectedPeers k) h))
         \<and> (if \<exists>b\<le>c. connectedPeers k ! b = []
             then \<exists>h. shallowest_empty (connectedPeers k) h
                      \<and> recalcDepth_with each k = Returned (of_nat h)
             else recalcDepth_with each k = Returned (of_nat c))"
proof -
  let ?s = "connectedPeers k"
  have rd: "recalcDepth_with each k =
      (case shallowest_hole ?s of None \<Rightarrow> Returned (of_nat c)
       | Some h \<Rightarrow> if (of_nat c :: uint8) < of_nat h then Returned (of_nat c) else Returned (of_nat h))"
    using big scan
    by (simp add: recalcDepth_with_def ShallowestEmpty_def split: option.split)
  show ?thesis
  proof (cases "shallowest_hole ?s")
    case None
    have nohole: "\<not> hole ?s h" for h by (rule shallowest_hole_None [OF None])
    have noempty: "\<not> (\<exists>b\<le>c. ?s ! b = [])"
    proof
      assume "\<exists>b\<le>c. ?s ! b = []"
      then obtain b where b: "b \<le> c" "?s ! b = []" by blast
      with occ have "b < c" by (cases "b = c") auto
      with b c16 len occ have "hole ?s b" by (auto simp: hole_def)
      with nohole show False by blast
    qed
    moreover have "\<not> (\<exists>h\<le>c. shallowest_empty ?s h)"
      using nohole by (simp add: shallowest_empty_def)
    moreover have "recalcDepth_with each k = Returned (of_nat c)" using rd None by simp
    ultimately show ?thesis by auto
  next
    case (Some h)
    from shallowest_hole_Some [OF Some] have se: "shallowest_empty ?s h"
      and full: "\<forall>b<h. ?s ! b \<noteq> []" by simp_all
    from se have hh: "hole ?s h" by (simp add: shallowest_empty_def)
    then have h16: "h < maxBins" and hempty: "?s ! h = []" using len by (simp_all add: hole_def)
    have uniq: "h' = h" if "shallowest_empty ?s h'" for h'
    proof -
      from that se have "\<not> h' < h" "\<not> h < h'" by (auto simp: shallowest_empty_def)
      then show ?thesis by simp
    qed
    have cmp: "((of_nat c :: uint8) < of_nat h) = (c < h)"
      using c16 h16 by (simp add: of_nat_less_uint8 maxBins_def)
    show ?thesis
    proof (cases "c < h")
      case True
      have noempty: "\<not> (\<exists>b\<le>c. ?s ! b = [])" using full True by auto
      moreover have "\<not> (\<exists>h'\<le>c. shallowest_empty ?s h')" using uniq True by auto
      moreover have "recalcDepth_with each k = Returned (of_nat c)" using rd Some cmp True by simp
      ultimately show ?thesis by auto
    next
      case False
      then have hc: "h \<le> c" by simp
      have empty: "\<exists>b\<le>c. ?s ! b = []" using hc hempty by blast
      moreover have "\<exists>h'\<le>c. shallowest_empty ?s h'" using hc se by blast
      moreover have "recalcDepth_with each k = Returned (of_nat h)" using rd Some cmp False by simp
      ultimately show ?thesis using se by auto
    qed
  qed
qed

text \<open>
  With an ascending scan, \<open>recalcDepth\<close> computes what the prose of the specification
  (4.3) describes: the candidate is the bin at which the running count of a scan in
  increasing order first reaches the watermark.
\<close>

lemma recalcDepth_with_ascending_scan:
  assumes len: "length (connectedPeers k) = maxBins"
    and big: "nnLowWatermark < ps_Length (connectedPeers k)"
  shows "\<exists>c. c < maxBins
           \<and> nnLowWatermark \<le> running_count (connectedPeers k) c
           \<and> (\<forall>b<c. running_count (connectedPeers k) b < nnLowWatermark)
           \<and> ((\<exists>b\<le>c. connectedPeers k ! b = []) = (\<exists>h\<le>c. shallowest_empty (connectedPeers k) h))
           \<and> (if \<exists>b\<le>c. connectedPeers k ! b = []
                then \<exists>h. shallowest_empty (connectedPeers k) h
                         \<and> recalcDepth_with EachBinRev k = Returned (of_nat h)
                else recalcDepth_with EachBinRev k = Returned (of_nat c))"
proof -
  let ?s = "connectedPeers k"
  from EachBinRev_recalc [OF big] obtain c where
    cand: "first_reaching ?s [0..<length ?s] 0 = Some c" and
    scan: "EachBinRev recalc_visit ?s (0, 0) = Returned (None, (nnLowWatermark, of_nat c))"
    by blast
  note cf = candidate_facts [OF cand]
  from cf(1) len have c16: "c < maxBins" by simp
  from recalcDepth_with_candidate [where each = EachBinRev, OF len big scan c16 cf(4)]
    c16 cf(2,3)
  show ?thesis by (intro exI [of _ c]) simp
qed

subsection \<open>Traversals, the invariant and the passes of manage\<close>

lemma plainD:
  "plain pf \<Longrightarrow> pf a po st = Returned ((stop, skip, err), st') \<Longrightarrow> \<not> skip \<and> err = None"
  unfolding plain_def by blast

lemma each_in_bin_run:
  assumes "plain pf"
  shows "each_in_bin pf po as st =
     (case run_visits pf (map (\<lambda>a. (a, po)) as) st of
        Panicked msg \<Rightarrow> Panicked msg
      | Returned (over, st') \<Rightarrow> Returned ((over, None), st'))"
proof (induction as arbitrary: st)
  case Nil
  show ?case by simp
next
  case (Cons a as)
  show ?case
  proof (cases "pf a po st")
    case (Panicked msg)
    then show ?thesis by simp
  next
    case (Returned r)
    obtain stop skip err st' where r: "r = ((stop, skip, err), st')"
      by (metis prod.exhaust)
    from plainD [OF assms Returned [unfolded r]] have "\<not> skip" "err = None" by simp_all
    with Returned r Cons.IH [of st'] show ?thesis by simp
  qed
qed

lemma run_visits_append:
  "run_visits pf (xs @ ys) st =
     (case run_visits pf xs st of
        Panicked msg \<Rightarrow> Panicked msg
      | Returned (over, st') \<Rightarrow> (if over then Returned (True, st') else run_visits pf ys st'))"
proof (induction xs arbitrary: st)
  case Nil
  show ?case by simp
next
  case (Cons v xs)
  show ?case
  proof (cases "pf (fst v) (snd v) st")
    case (Panicked msg)
    then show ?thesis by simp
  next
    case (Returned r)
    obtain stop skip err st' where r: "r = ((stop, skip, err), st')"
      by (metis prod.exhaust)
    with Returned Cons.IH [of st'] show ?thesis by simp
  qed
qed

lemma visits_Nil: "visits s [] = []"
  by (simp add: visits_def)

lemma visits_Cons: "visits s (b # bs) = map (\<lambda>a. (a, of_nat b)) (s ! b) @ visits s bs"
  by (simp add: visits_def)

lemma each_in_bins_run:
  assumes "plain pf"
  shows "each_in_bins pf s bs st =
     (case run_visits pf (visits s bs) st of
        Panicked msg \<Rightarrow> Panicked msg
      | Returned (over, st') \<Rightarrow> Returned (None, st'))"
proof (induction bs arbitrary: st)
  case Nil
  show ?case by (simp add: visits_Nil)
next
  case (Cons b bs)
  show ?case
    by (simp add: visits_Cons run_visits_append each_in_bin_run [OF assms] Cons.IH
        split: outcome.split)
qed

lemma recalcDepth_returns: "\<exists>d. recalcDepth k = Returned d"
proof -
  have pos: "0 < nnLowWatermark" by (simp add: nnLowWatermark_def)
  show ?thesis
    by (simp add: recalcDepth_def recalcDepth_with_def EachBin_def each_in_bins_recalc [OF pos]
        split: prod.split option.split)
qed

lemma manage_visit_plain: "plain (manage_visit addressBook connect pick)"
  by (auto simp: plain_def manage_visit_def binSaturated_def Let_def
      split: if_splits option.splits outcome.splits)

lemma binned_iff: "binned b s = (\<forall>i<length s. \<forall>a\<in>set (s ! i). Proximity b a = i)"
  by (auto simp: binned_def list_all_iff)

lemma ps_Exists_iff: "ps_Exists s a = (\<exists>i<length s. a \<in> set (s ! i))"
proof
  assume "ps_Exists s a"
  then obtain x where "x \<in> set s" "a \<in> set x" by (auto simp: ps_Exists_def)
  then show "\<exists>i<length s. a \<in> set (s ! i)" by (metis in_set_conv_nth)
next
  assume "\<exists>i<length s. a \<in> set (s ! i)"
  then show "ps_Exists s a" by (auto simp: ps_Exists_def)
qed

lemma bins_distinct_iff: "list_all distinct s = (\<forall>i<length s. distinct (s ! i))"
  by (simp add: list_all_length)

lemma within_iff:
  "list_all (ps_Exists kn) (concat c) = (\<forall>a. ps_Exists c a \<longrightarrow> ps_Exists kn a)"
  by (auto simp: list_all_iff ps_Exists_def)

lemma unat_of_nat_bin: "n < maxBins \<Longrightarrow> unat (of_nat n :: uint8) = n"
  by (simp add: unat_of_nat maxBins_def)

lemma length_ps_Add: "length (ps_Add s a po) = length s"
  by (simp add: ps_Add_def)

lemma length_ps_Remove: "length (ps_Remove s a po) = length s"
  by (simp add: ps_Remove_def)

lemma nth_ps_Add:
  "i < length s \<Longrightarrow> ps_Add s a po ! i = (if i = unat po then s ! i @ [a] else s ! i)"
  by (simp add: ps_Add_def)

lemma nth_ps_Remove:
  "i < length s \<Longrightarrow> ps_Remove s a po ! i = (if i = unat po then removeAll a (s ! i) else s ! i)"
  by (simp add: ps_Remove_def)

lemma recalcDepth_cong: "connectedPeers k' = connectedPeers k \<Longrightarrow> recalcDepth k' = recalcDepth k"
  by (simp add: recalcDepth_def recalcDepth_with_def)

lemma wake_fields:
  "base (wake pick k) = base k" "connectedPeers (wake pick k) = connectedPeers k"
  "knownPeers (wake pick k) = knownPeers k" "depth (wake pick k) = depth k"
  "quit (wake pick k) = quit k"
  by (simp_all add: wake_def)

lemma kad_inv_cong:
  "base k' = base k \<Longrightarrow> connectedPeers k' = connectedPeers k \<Longrightarrow> knownPeers k' = knownPeers k
   \<Longrightarrow> depth k' = depth k \<Longrightarrow> kad_inv k' = kad_inv k"
  by (simp add: kad_inv_def recalcDepth_cong [of k' k])

lemma kad_inv_wake: "kad_inv (wake pick k) = kad_inv k"
  by (rule kad_inv_cong) (simp_all add: wake_fields)

lemma kad_inv_New: "kad_inv (New b)"
  by (simp add: kad_inv_def New_def ps_New_def binned_iff recalcDepth_def recalcDepth_with_def
      ps_Length_def nnLowWatermark_def list_all_iff)

lemma kad_inv_alt:
  "kad_inv k =
     (length (connectedPeers k) = maxBins \<and> length (knownPeers k) = maxBins
      \<and> (\<forall>i<maxBins. distinct (connectedPeers k ! i))
      \<and> (\<forall>i<maxBins. \<forall>a\<in>set (connectedPeers k ! i). Proximity (base k) a = i)
      \<and> (\<forall>i<maxBins. \<forall>a\<in>set (knownPeers k ! i). Proximity (base k) a = i)
      \<and> (\<forall>a. ps_Exists (connectedPeers k) a \<longrightarrow> ps_Exists (knownPeers k) a)
      \<and> recalcDepth k = Returned (depth k))"
  unfolding kad_inv_def binned_iff bins_distinct_iff within_iff by auto

lemma ps_Exists_Add:
  "unat po < length s \<Longrightarrow> ps_Exists (ps_Add s a po) x = (x = a \<or> ps_Exists s x)"
  by (auto simp: ps_Exists_iff length_ps_Add nth_ps_Add split: if_splits)

lemma ps_Exists_Remove_D: "ps_Exists (ps_Remove s a po) x \<Longrightarrow> ps_Exists s x"
  by (auto simp: ps_Exists_iff length_ps_Remove nth_ps_Remove split: if_splits)

lemma ps_Exists_Remove_other:
  "x \<noteq> a \<Longrightarrow> ps_Exists s x \<Longrightarrow> ps_Exists (ps_Remove s a po) x"
  by (auto simp: ps_Exists_iff length_ps_Remove nth_ps_Remove)

lemma kad_inv_AddPeer:
  assumes inv: "kad_inv k" and ret: "AddPeer pick k addr = Returned (err, k')"
  shows "kad_inv k'"
proof -
  let ?po = "of_nat (Proximity (base k) addr) :: uint8"
  let ?k1 = "k\<lparr>knownPeers := ps_Add (knownPeers k) addr ?po\<rparr>"
  from ret have k': "k' = wake pick ?k1"
    by (auto simp: AddPeer_def Let_def split: if_splits)
  have po: "unat ?po = Proximity (base k) addr"
    by (simp add: unat_of_nat_bin Proximity_less_maxBins)
  have lt: "Proximity (base k) addr < maxBins" by (rule Proximity_less_maxBins)
  from inv have "kad_inv ?k1"
    unfolding kad_inv_alt
    by (auto simp: length_ps_Add nth_ps_Add po ps_Exists_Add lt recalcDepth_cong [of ?k1 k]
        split: if_splits)
  then show ?thesis by (simp add: k' kad_inv_wake)
qed

lemma kad_inv_removed:
  assumes inv: "kad_inv k"
    and rd: "recalcDepth (k\<lparr>connectedPeers := ps_Remove (connectedPeers k) addr po\<rparr>) = Returned d"
  shows "kad_inv (k\<lparr>connectedPeers := ps_Remove (connectedPeers k) addr po, depth := d\<rparr>)"
proof -
  let ?k1 = "k\<lparr>connectedPeers := ps_Remove (connectedPeers k) addr po\<rparr>"
  let ?k2 = "k\<lparr>connectedPeers := ps_Remove (connectedPeers k) addr po, depth := d\<rparr>"
  have "recalcDepth ?k2 = Returned d" using rd recalcDepth_cong [of ?k2 ?k1] by simp
  with inv show ?thesis
    unfolding kad_inv_alt
    by (auto simp: length_ps_Remove nth_ps_Remove distinct_removeAll
        dest: ps_Exists_Remove_D split: if_splits)
qed

lemma kad_inv_Remove:
  assumes inv: "kad_inv k" and ret: "Remove pick k addr = Returned k'"
  shows "kad_inv k'"
  using ret kad_inv_removed [OF inv]
  by (auto simp: Remove_def Let_def kad_inv_wake split: outcome.splits)

lemma kad_inv_Disconnected:
  assumes inv: "kad_inv k" and ret: "Disconnected pick k addr = Returned k'"
  shows "kad_inv k'"
  using ret kad_inv_removed [OF inv]
  by (auto simp: Disconnected_def Let_def kad_inv_wake split: outcome.splits)

lemma kad_inv_Close:
  assumes inv: "kad_inv k" and ret: "Close k = Returned (err, k')"
  shows "kad_inv k'"
proof -
  from ret have "k' = k\<lparr>quit := True\<rparr>" by (auto simp: Close_def split: if_splits)
  then show ?thesis using inv kad_inv_cong [of k' k] by simp
qed

lemma kad_inv_dialled:
  assumes inv: "kad_inv k" and i: "i < maxBins" and known: "peer \<in> set (knownPeers k ! i)"
    and fresh: "\<not> ps_Exists (connectedPeers k) peer"
    and rd: "recalcDepth (k\<lparr>connectedPeers := ps_Add (connectedPeers k) peer (of_nat i)\<rparr>) = Returned d"
  shows "kad_inv (k\<lparr>connectedPeers := ps_Add (connectedPeers k) peer (of_nat i), depth := d\<rparr>)"
proof -
  let ?po = "of_nat i :: uint8"
  let ?k1 = "k\<lparr>connectedPeers := ps_Add (connectedPeers k) peer ?po\<rparr>"
  let ?k2 = "k\<lparr>connectedPeers := ps_Add (connectedPeers k) peer ?po, depth := d\<rparr>"
  have po: "unat ?po = i" using i by (simp add: unat_of_nat_bin)
  have rd2: "recalcDepth ?k2 = Returned d" using rd recalcDepth_cong [of ?k2 ?k1] by simp
  from inv have len: "length (connectedPeers k) = maxBins" "length (knownPeers k) = maxBins"
    by (simp_all add: kad_inv_alt)
  from inv i known have prox: "Proximity (base k) peer = i" by (simp add: kad_inv_alt)
  from known i len have ex: "ps_Exists (knownPeers k) peer" by (auto simp: ps_Exists_iff)
  from fresh have notin: "\<And>j. j < maxBins \<Longrightarrow> peer \<notin> set (connectedPeers k ! j)"
    using len by (auto simp: ps_Exists_iff)
  from inv rd2 prox ex notin i show ?thesis
    unfolding kad_inv_alt
    by (auto simp: length_ps_Add nth_ps_Add po ps_Exists_Add len split: if_splits)
qed

lemma manage_visit_cases:
  assumes "manage_visit addressBook connect pick peer po k = Returned ((stop, skip, err), k')"
  shows "(\<not> stop \<and> k' = k) \<or>
         (stop \<and> \<not> ps_Exists (connectedPeers k) peer
            \<and> (\<exists>ma x d. addressBook peer = Some ma \<and> connect ma = Some x
                  \<and> recalcDepth (k\<lparr>connectedPeers := ps_Add (connectedPeers k) peer po\<rparr>) = Returned d
                  \<and> k' = wake pick (k\<lparr>connectedPeers := ps_Add (connectedPeers k) peer po, depth := d\<rparr>)))"
  using assms
  by (auto simp: manage_visit_def binSaturated_def Let_def
      split: if_splits option.splits outcome.splits)

lemma run_manage_cases:
  assumes "run_visits (manage_visit addressBook connect pick) vs k = Returned (over, k')"
  shows "(\<not> over \<and> k' = k) \<or>
         (over \<and> (\<exists>peer po ma x d. (peer, po) \<in> set vs
            \<and> \<not> ps_Exists (connectedPeers k) peer
            \<and> addressBook peer = Some ma \<and> connect ma = Some x
            \<and> recalcDepth (k\<lparr>connectedPeers := ps_Add (connectedPeers k) peer po\<rparr>) = Returned d
            \<and> k' = wake pick (k\<lparr>connectedPeers := ps_Add (connectedPeers k) peer po, depth := d\<rparr>)))"
  using assms
proof (induction vs)
  case Nil
  then show ?case by simp
next
  case (Cons v vs)
  show ?case
  proof (cases "manage_visit addressBook connect pick (fst v) (snd v) k")
    case (Panicked msg)
    with Cons.prems show ?thesis by simp
  next
    case (Returned r)
    obtain stop skip err k1 where r: "r = ((stop, skip, err), k1)"
      by (metis prod.exhaust)
    note mv = manage_visit_cases [OF Returned [unfolded r]]
    show ?thesis
    proof (cases stop)
      case True
      with Cons.prems Returned r have "over" "k' = k1" by simp_all
      with mv True show ?thesis by (cases v) auto
    next
      case False
      with mv have "k1 = k" by simp
      with Cons.prems Returned r False
      have "run_visits (manage_visit addressBook connect pick) vs k = Returned (over, k')"
        by simp
      from Cons.IH [OF this] show ?thesis by auto
    qed
  qed
qed

lemma in_visits_D:
  "(peer, po) \<in> set (visits s bs) \<Longrightarrow> \<exists>b\<in>set bs. peer \<in> set (s ! b) \<and> po = of_nat b"
  by (auto simp: visits_def)

lemma manage_pass_run:
  "manage_pass addressBook connect pick k =
     (case run_visits (manage_visit addressBook connect pick)
             (visits (knownPeers k) [0..<length (knownPeers k)]) k of
        Panicked msg \<Rightarrow> Panicked msg
      | Returned (over, k') \<Rightarrow> Returned k')"
  by (simp add: manage_pass_def EachBinRev_def each_in_bins_run [OF manage_visit_plain]
      split: outcome.split)

lemma manage_pass_cases:
  assumes "manage_pass addressBook connect pick k = Returned k'"
  shows "k' = k \<or>
         (\<exists>peer b ma x d. b < length (knownPeers k) \<and> peer \<in> set (knownPeers k ! b)
            \<and> \<not> ps_Exists (connectedPeers k) peer
            \<and> addressBook peer = Some ma \<and> connect ma = Some x
            \<and> recalcDepth (k\<lparr>connectedPeers := ps_Add (connectedPeers k) peer (of_nat b)\<rparr>) = Returned d
            \<and> k' = wake pick (k\<lparr>connectedPeers := ps_Add (connectedPeers k) peer (of_nat b), depth := d\<rparr>))"
proof -
  let ?vs = "visits (knownPeers k) [0..<length (knownPeers k)]"
  from assms obtain over where
    run: "run_visits (manage_visit addressBook connect pick) ?vs k = Returned (over, k')"
    by (auto simp: manage_pass_run split: outcome.splits)
  from run_manage_cases [OF run] show ?thesis
  proof
    assume "\<not> over \<and> k' = k"
    then show ?thesis by simp
  next
    assume "over \<and> (\<exists>peer po ma x d. (peer, po) \<in> set ?vs
            \<and> \<not> ps_Exists (connectedPeers k) peer
            \<and> addressBook peer = Some ma \<and> connect ma = Some x
            \<and> recalcDepth (k\<lparr>connectedPeers := ps_Add (connectedPeers k) peer po\<rparr>) = Returned d
            \<and> k' = wake pick (k\<lparr>connectedPeers := ps_Add (connectedPeers k) peer po, depth := d\<rparr>))"
    then obtain peer po ma x d where v: "(peer, po) \<in> set ?vs"
      and rest: "\<not> ps_Exists (connectedPeers k) peer" "addressBook peer = Some ma"
        "connect ma = Some x"
        "recalcDepth (k\<lparr>connectedPeers := ps_Add (connectedPeers k) peer po\<rparr>) = Returned d"
        "k' = wake pick (k\<lparr>connectedPeers := ps_Add (connectedPeers k) peer po, depth := d\<rparr>)"
      by blast
    from in_visits_D [OF v] obtain b where "b < length (knownPeers k)"
      "peer \<in> set (knownPeers k ! b)" "po = of_nat b" by auto
    with rest show ?thesis by blast
  qed
qed

lemma kad_inv_manage_pass:
  assumes inv: "kad_inv k" and ret: "manage_pass addressBook connect pick k = Returned k'"
  shows "kad_inv k'"
  using manage_pass_cases [OF ret]
proof
  assume "k' = k"
  with inv show ?thesis by simp
next
  assume "\<exists>peer b ma x d. b < length (knownPeers k) \<and> peer \<in> set (knownPeers k ! b)
            \<and> \<not> ps_Exists (connectedPeers k) peer
            \<and> addressBook peer = Some ma \<and> connect ma = Some x
            \<and> recalcDepth (k\<lparr>connectedPeers := ps_Add (connectedPeers k) peer (of_nat b)\<rparr>) = Returned d
            \<and> k' = wake pick (k\<lparr>connectedPeers := ps_Add (connectedPeers k) peer (of_nat b), depth := d\<rparr>)"
  then obtain peer b d where b: "b < length (knownPeers k)" "peer \<in> set (knownPeers k ! b)"
    and fresh: "\<not> ps_Exists (connectedPeers k) peer"
    and rd: "recalcDepth (k\<lparr>connectedPeers := ps_Add (connectedPeers k) peer (of_nat b)\<rparr>) = Returned d"
    and k': "k' = wake pick (k\<lparr>connectedPeers := ps_Add (connectedPeers k) peer (of_nat b), depth := d\<rparr>)"
    by blast
  from inv b have "b < maxBins" by (simp add: kad_inv_alt)
  from kad_inv_dialled [OF inv this b(2) fresh rd] show ?thesis
    by (simp add: k' kad_inv_wake)
qed

lemma kad_inv_manage_step:
  assumes inv: "kad_inv k"
    and ret: "manage_step addressBook connect recv pick k = Returned (Passed k')"
  shows "kad_inv k'"
proof -
  from ret have pass: "manage_pass addressBook connect pick (k\<lparr>manageC := False\<rparr>) = Returned k'"
    by (auto simp: manage_step_def Let_def split: if_splits outcome.splits)
  have "kad_inv (k\<lparr>manageC := False\<rparr>)" using inv kad_inv_cong [of "k\<lparr>manageC := False\<rparr>" k] by simp
  from kad_inv_manage_pass [OF this pass] show ?thesis .
qed

lemma reachable_kad_inv: "reachable k \<Longrightarrow> kad_inv k"
proof (induction rule: reachable.induct)
  case (r_New b)
  show ?case by (rule kad_inv_New)
next
  case (r_AddPeer k pick addr err k')
  then show ?case by (blast intro: kad_inv_AddPeer)
next
  case (r_Disconnected k pick addr k')
  then show ?case by (blast intro: kad_inv_Disconnected)
next
  case (r_Remove k pick addr k')
  then show ?case by (blast intro: kad_inv_Remove)
next
  case (r_manage k addressBook connect recv pick k')
  then show ?case by (blast intro: kad_inv_manage_step)
next
  case (r_Close k err k')
  then show ?case by (blast intro: kad_inv_Close)
qed

lemma AddPeer_New_peer0: "AddPeer False (New base0) peer0 = Returned (None, kad_known0)"
  by code_simp

lemma manage_step_kad_known0:
  "manage_step book_all dial_ok False False kad_known0 = Returned (Passed kad_conn0)"
  by code_simp

lemma reachable_kad_conn0: "reachable kad_conn0"
proof -
  have "reachable (New base0)" by (rule r_New)
  from r_AddPeer [OF this AddPeer_New_peer0] have "reachable kad_known0" .
  from r_manage [OF this manage_step_kad_known0] show ?thesis .
qed

lemma first_reaching_cong:
  "(\<And>b. b \<in> set bs \<Longrightarrow> length (s ! b) = length (s' ! b))
   \<Longrightarrow> first_reaching s bs p = first_reaching s' bs p"
  by (induction bs arbitrary: p) simp_all

lemma bins_count_cong:
  "(\<And>b. b \<in> set bs \<Longrightarrow> length (s ! b) = length (s' ! b))
   \<Longrightarrow> bins_count s bs = bins_count s' bs"
  by (induction bs) (simp_all add: bins_count_Nil bins_count_Cons)

lemma shallowest_hole_cong:
  assumes len: "length s = length s'"
    and nth: "\<And>b. b < length s \<Longrightarrow> (s ! b = []) = (s' ! b = [])"
  shows "shallowest_hole s = shallowest_hole s'"
proof -
  let ?occ = "filter (\<lambda>b. s ! b \<noteq> []) [0..<length s]"
  let ?occ' = "filter (\<lambda>b. s' ! b \<noteq> []) [0..<length s']"
  have occ: "?occ = ?occ'"
    by (rule filter_cong) (simp_all add: len nth [unfolded len])
  show ?thesis
  proof (cases "?occ = []")
    case True
    then have "shallowest_hole s = None" unfolding shallowest_hole_def Let_def by (simp only: simp_thms if_True)
    moreover from True occ have "?occ' = []" by simp
    then have "shallowest_hole s' = None" unfolding shallowest_hole_def Let_def by (simp only: simp_thms if_True)
    ultimately show ?thesis by simp
  next
    case False
    then have "last ?occ \<in> set ?occ" by (rule last_in_set)
    then have bound: "last ?occ < length s" by simp
    have f: "find (\<lambda>b. s ! b = []) [0..<last ?occ] = find (\<lambda>b. s' ! b = []) [0..<last ?occ]"
    proof (rule find_cong)
      show "[0..<last ?occ] = [0..<last ?occ]" by (rule refl)
    next
      fix x assume "x \<in> set [0..<last ?occ]"
      with bound have "x < length s" by simp
      then show "(s ! x = []) = (s' ! x = [])" by (rule nth)
    qed
    from False have "shallowest_hole s = find (\<lambda>b. s ! b = []) [0..<last ?occ]"
      unfolding shallowest_hole_def Let_def by (simp only: if_False)
    moreover from False have "?occ' \<noteq> []" unfolding occ .
    then have "shallowest_hole s' = find (\<lambda>b. s' ! b = []) [0..<last ?occ']"
      unfolding shallowest_hole_def Let_def by (simp only: if_False)
    ultimately show ?thesis using f occ by (simp only:)
  qed
qed

lemma recalcDepth_lengths:
  assumes "map length (connectedPeers k) = map length (connectedPeers k')"
  shows "recalcDepth k = recalcDepth k'"
proof -
  let ?s = "connectedPeers k" and ?s' = "connectedPeers k'"
  from assms have len: "length ?s = length ?s'" by (rule map_eq_imp_length_eq)
  have nth: "length (?s ! b) = length (?s' ! b)" if "b < length ?s" for b
  proof -
    from that have "length (?s ! b) = map length ?s ! b" by simp
    also have "\<dots> = map length ?s' ! b" by (simp only: assms)
    also have "\<dots> = length (?s' ! b)" using that len by simp
    finally show ?thesis .
  qed
  have pos: "0 < nnLowWatermark" by (simp add: nnLowWatermark_def)
  have total: "ps_Length ?s = ps_Length ?s'"
    by (simp only: ps_Length_def length_concat assms)
  have holes: "shallowest_hole ?s = shallowest_hole ?s'"
  proof (rule shallowest_hole_cong [OF len])
    fix b assume "b < length ?s"
    from nth [OF this] show "(?s ! b = []) = (?s' ! b = [])" by (metis length_0_conv)
  qed
  have fr: "first_reaching ?s (rev [0..<length ?s]) 0 = first_reaching ?s' (rev [0..<length ?s']) 0"
    using first_reaching_cong [of "rev [0..<length ?s]" ?s ?s' 0] nth len by simp
  have bc: "bins_count ?s (rev [0..<length ?s]) = bins_count ?s' (rev [0..<length ?s'])"
    using bins_count_cong [of "rev [0..<length ?s]" ?s ?s'] nth len by simp
  have scan: "EachBin recalc_visit ?s (0, 0) = EachBin recalc_visit ?s' (0, 0)"
    by (simp add: EachBin_def each_in_bins_recalc [OF pos] fr bc split: option.split)
  show ?thesis
    by (simp add: recalcDepth_def recalcDepth_with_def total holes scan ShallowestEmpty_def)
qed

lemma length_removeAll_once:
  "distinct xs \<Longrightarrow> x \<in> set xs \<Longrightarrow> Suc (length (removeAll x xs)) = length xs"
  by (induction xs) auto

lemma lengths_Remove_Add:
  assumes "unat po < length s" and "p \<in> set (s ! unat po)" and "distinct (s ! unat po)"
  shows "map length (ps_Add (ps_Remove s p po) p po) = map length s"
proof (rule nth_equalityI)
  show "length (map length (ps_Add (ps_Remove s p po) p po)) = length (map length s)"
    by (simp add: length_ps_Add length_ps_Remove)
next
  fix i assume "i < length (map length (ps_Add (ps_Remove s p po) p po))"
  then have i: "i < length s" by (simp add: length_ps_Add length_ps_Remove)
  show "map length (ps_Add (ps_Remove s p po) p po) ! i = map length s ! i"
    using i assms length_removeAll_once [OF assms(3,2)]
    by (simp add: length_ps_Add length_ps_Remove nth_ps_Add nth_ps_Remove)
qed

lemma recalcDepth_sizes:
  assumes "map length (connectedPeers k) = ns"
  shows "recalcDepth k = depth_of_sizes ns"
  unfolding depth_of_sizes_def
  by (rule recalcDepth_lengths) (simp add: assms [symmetric] comp_def)

text \<open>
  The depths \<open>TestNeighborhoodDepth\<close> waits for, in the order of the test: no peer; two
  peers in bin 8; one more in bin 0 and in bin 1; one more in each of the bins 2 to 6;
  one in bin 7; one in bin 9; one in each of the bins 10 to 15; a second one in bin
  15; that one removed; the peer of bin 1 removed.
\<close>

lemma TestNeighborhoodDepth_depths:
  "depth_of_sizes [0, 0, 0, 0, 0, 0, 0, 0, 0, 0, 0, 0, 0, 0, 0, 0] = Returned 0"
  "depth_of_sizes [0, 0, 0, 0, 0, 0, 0, 0, 2, 0, 0, 0, 0, 0, 0, 0] = Returned 0"
  "depth_of_sizes [1, 1, 0, 0, 0, 0, 0, 0, 2, 0, 0, 0, 0, 0, 0, 0] = Returned 2"
  "depth_of_sizes [1, 1, 1, 0, 0, 0, 0, 0, 2, 0, 0, 0, 0, 0, 0, 0] = Returned 3"
  "depth_of_sizes [1, 1, 1, 1, 0, 0, 0, 0, 2, 0, 0, 0, 0, 0, 0, 0] = Returned 4"
  "depth_of_sizes [1, 1, 1, 1, 1, 0, 0, 0, 2, 0, 0, 0, 0, 0, 0, 0] = Returned 5"
  "depth_of_sizes [1, 1, 1, 1, 1, 1, 0, 0, 2, 0, 0, 0, 0, 0, 0, 0] = Returned 6"
  "depth_of_sizes [1, 1, 1, 1, 1, 1, 1, 0, 2, 0, 0, 0, 0, 0, 0, 0] = Returned 7"
  "depth_of_sizes [1, 1, 1, 1, 1, 1, 1, 1, 2, 0, 0, 0, 0, 0, 0, 0] = Returned 8"
  "depth_of_sizes [1, 1, 1, 1, 1, 1, 1, 1, 2, 1, 0, 0, 0, 0, 0, 0] = Returned 8"
  "depth_of_sizes [1, 1, 1, 1, 1, 1, 1, 1, 2, 1, 1, 0, 0, 0, 0, 0] = Returned 9"
  "depth_of_sizes [1, 1, 1, 1, 1, 1, 1, 1, 2, 1, 1, 1, 0, 0, 0, 0] = Returned 10"
  "depth_of_sizes [1, 1, 1, 1, 1, 1, 1, 1, 2, 1, 1, 1, 1, 0, 0, 0] = Returned 11"
  "depth_of_sizes [1, 1, 1, 1, 1, 1, 1, 1, 2, 1, 1, 1, 1, 1, 0, 0] = Returned 12"
  "depth_of_sizes [1, 1, 1, 1, 1, 1, 1, 1, 2, 1, 1, 1, 1, 1, 1, 0] = Returned 13"
  "depth_of_sizes [1, 1, 1, 1, 1, 1, 1, 1, 2, 1, 1, 1, 1, 1, 1, 1] = Returned 14"
  "depth_of_sizes [1, 1, 1, 1, 1, 1, 1, 1, 2, 1, 1, 1, 1, 1, 1, 2] = Returned 15"
  "depth_of_sizes [1, 0, 1, 1, 1, 1, 1, 1, 2, 1, 1, 1, 1, 1, 1, 1] = Returned 1"
  by code_simp+

text \<open>An ascending scan does not give the depth the test waits for after its first four peers.\<close>

lemma ascending_scan_fails_test:
  "ascending_depth_of_sizes [1, 1, 0, 0, 0, 0, 0, 0, 2, 0, 0, 0, 0, 0, 0, 0] = Returned 1"
  by code_simp

lemma run_passive:
  assumes "\<And>q po. (q, po) \<in> set vs \<Longrightarrow>
             ps_Exists (connectedPeers k) q \<or> (\<exists>ma. addressBook q = Some ma \<and> connect ma = None)"
  shows "run_visits (manage_visit addressBook connect pick) vs k = Returned (False, k)"
  using assms
proof (induction vs)
  case Nil
  show ?case by simp
next
  case (Cons v vs)
  have "ps_Exists (connectedPeers k) (fst v)
        \<or> (\<exists>ma. addressBook (fst v) = Some ma \<and> connect ma = None)"
    by (rule Cons.prems [of "fst v" "snd v"]) simp
  then have "manage_visit addressBook connect pick (fst v) (snd v) k
             = Returned ((False, False, None), k)"
    by (auto simp: manage_visit_def binSaturated_def)
  moreover have "run_visits (manage_visit addressBook connect pick) vs k = Returned (False, k)"
  proof (rule Cons.IH)
    fix q po assume "(q, po) \<in> set vs"
    then have "(q, po) \<in> set (v # vs)" by simp
    then show "ps_Exists (connectedPeers k) q
               \<or> (\<exists>ma. addressBook q = Some ma \<and> connect ma = None)"
      by (rule Cons.prems)
  qed
  ultimately show ?case by simp
qed

lemma in_visits_I:
  "b \<in> set bs \<Longrightarrow> peer \<in> set (s ! b) \<Longrightarrow> (peer, of_nat b) \<in> set (visits s bs)"
  by (auto simp: visits_def)

lemma manageC_wake: "\<not> quit k \<Longrightarrow> manageC (wake pick k)"
  by (simp add: wake_def)

lemma settled_D:
  assumes "settled addressBook connect k p" and "q \<in> set (concat (knownPeers k))" and "q \<noteq> p"
  shows "ps_Exists (connectedPeers k) q \<or> (\<exists>ma. addressBook q = Some ma \<and> connect ma = None)"
  using assms by (auto simp: settled_def no_dial_def list_all_iff split: option.splits)

lemma no_dial_iff:
  "no_dial addressBook connect k q =
     (ps_Exists (connectedPeers k) q \<or> (\<exists>ma. addressBook q = Some ma \<and> connect ma = None))"
  by (auto simp: no_dial_def split: option.splits)

lemma run_manage_not_over:
  assumes "run_visits (manage_visit addressBook connect pick) vs k = Returned (False, k')"
  shows "\<forall>v\<in>set vs. no_dial addressBook connect k (fst v)"
  using assms
proof (induction vs)
  case Nil
  show ?case by simp
next
  case (Cons v vs)
  show ?case
  proof (cases "manage_visit addressBook connect pick (fst v) (snd v) k")
    case (Panicked msg)
    with Cons.prems show ?thesis by simp
  next
    case (Returned r)
    obtain stop skip err k1 where r: "r = ((stop, skip, err), k1)"
      by (metis prod.exhaust)
    from Cons.prems Returned r have ns: "\<not> stop" by (auto split: if_splits)
    with manage_visit_cases [OF Returned [unfolded r]] have k1: "k1 = k" by simp
    from Returned r ns have "no_dial addressBook connect k (fst v)"
      by (auto simp: manage_visit_def no_dial_def binSaturated_def Let_def
          split: if_splits option.splits outcome.splits)
    moreover from Cons.prems Returned r ns k1
    have "run_visits (manage_visit addressBook connect pick) vs k = Returned (False, k')"
      by simp
    from Cons.IH [OF this] have "\<forall>v\<in>set vs. no_dial addressBook connect k (fst v)" .
    ultimately show ?thesis by simp
  qed
qed

lemma in_visits_all:
  assumes "q \<in> set (concat s)" and "set bs = {0..<length s}"
  shows "\<exists>po. (q, po) \<in> set (visits s bs)"
proof -
  from assms(1) have "ps_Exists s q" by (simp add: ps_Exists_def)
  then obtain b where "b < length s" "q \<in> set (s ! b)" by (auto simp: ps_Exists_iff)
  then have "(q, of_nat b) \<in> set (visits s bs)"
    by (intro in_visits_I) (simp_all add: assms(2))
  then show ?thesis by blast
qed

text \<open>
  A pass over the bins of the known peers in any order \<open>bs\<close>: it leaves the manager as
  it is and has passed over every known peer, or it has dialled one peer and stopped.
\<close>

lemma pass_any_order:
  assumes "each_in_bins (manage_visit addressBook connect pick) (knownPeers k) bs k
             = Returned (e, k')"
    and bs: "set bs = {0..<length (knownPeers k)}"
  shows "(k' = k \<and> list_all (no_dial addressBook connect k) (concat (knownPeers k)))
       \<or> (\<exists>peer b ma x d. b < length (knownPeers k) \<and> peer \<in> set (knownPeers k ! b)
            \<and> \<not> ps_Exists (connectedPeers k) peer
            \<and> addressBook peer = Some ma \<and> connect ma = Some x
            \<and> recalcDepth (k\<lparr>connectedPeers := ps_Add (connectedPeers k) peer (of_nat b)\<rparr>) = Returned d
            \<and> k' = wake pick (k\<lparr>connectedPeers := ps_Add (connectedPeers k) peer (of_nat b), depth := d\<rparr>))"
proof -
  let ?vs = "visits (knownPeers k) bs"
  from assms(1) obtain over where
    run: "run_visits (manage_visit addressBook connect pick) ?vs k = Returned (over, k')"
    by (auto simp: each_in_bins_run [OF manage_visit_plain] split: outcome.splits)
  show ?thesis
  proof (cases over)
    case False
    with run_manage_cases [OF run] have same: "k' = k" by simp
    from run False have all: "\<forall>v\<in>set ?vs. no_dial addressBook connect k (fst v)"
      by (intro run_manage_not_over [of _ _ pick _ _ k']) simp
    have "list_all (no_dial addressBook connect k) (concat (knownPeers k))"
      unfolding list_all_iff
    proof
      fix q assume "q \<in> set (concat (knownPeers k))"
      from in_visits_all [OF this bs] obtain po where "(q, po) \<in> set ?vs" by blast
      with all show "no_dial addressBook connect k q" by force
    qed
    with same show ?thesis by simp
  next
    case True
    with run_manage_cases [OF run] obtain peer po ma x d where v: "(peer, po) \<in> set ?vs"
      and rest: "\<not> ps_Exists (connectedPeers k) peer" "addressBook peer = Some ma"
        "connect ma = Some x"
        "recalcDepth (k\<lparr>connectedPeers := ps_Add (connectedPeers k) peer po\<rparr>) = Returned d"
        "k' = wake pick (k\<lparr>connectedPeers := ps_Add (connectedPeers k) peer po, depth := d\<rparr>)"
      by blast
    from in_visits_D [OF v] bs obtain b where "b < length (knownPeers k)"
      "peer \<in> set (knownPeers k ! b)" "po = of_nat b" by auto
    with rest show ?thesis by blast
  qed
qed

text \<open>
  The pass after \<open>Remove\<close> of the connected peer \<open>p\<close>, over the bins in any order
  \<open>bs\<close>: if it passes over every other known peer and the dial of \<open>p\<close> succeeds, it
  connects \<open>p\<close> again, stops, and the depth is the one before the removal.
\<close>

lemma redial_any_order:
  assumes inv: "kad_inv k"
    and conn: "ps_Exists (connectedPeers k) p"
    and others: "settled addressBook connect k p"
    and book: "addressBook p = Some ma" and dial: "connect ma = Some x"
    and bs: "set bs = {0..<maxBins}"
    and k1c: "connectedPeers k1 = ps_Remove (connectedPeers k) p (of_nat (Proximity (base k) p))"
    and k1k: "knownPeers k1 = knownPeers k"
  shows "each_in_bins (manage_visit addressBook connect pick) (knownPeers k1) bs k1
         = Returned (None, wake pick (k1\<lparr>connectedPeers :=
               ps_Add (connectedPeers k1) p (of_nat (Proximity (base k) p)), depth := depth k\<rparr>))"
    and "\<not> ps_Exists (connectedPeers k1) p"
proof -
  let ?b = "Proximity (base k) p"
  let ?po = "of_nat ?b :: uint8"
  let ?c = "connectedPeers k"
  let ?c1 = "ps_Remove ?c p ?po"
  let ?kn = "knownPeers k"
  let ?vs = "visits ?kn bs"
  let ?pf = "manage_visit addressBook connect pick"
  have b16: "?b < maxBins" by (rule Proximity_less_maxBins)
  have po: "unat ?po = ?b" by (simp add: unat_of_nat_bin b16)
  from inv have lenc: "length ?c = maxBins" and lenk: "length ?kn = maxBins"
    and dist: "\<And>i. i < maxBins \<Longrightarrow> distinct (?c ! i)"
    and binc: "\<And>i a. i < maxBins \<Longrightarrow> a \<in> set (?c ! i) \<Longrightarrow> Proximity (base k) a = i"
    and bink: "\<And>i a. i < maxBins \<Longrightarrow> a \<in> set (?kn ! i) \<Longrightarrow> Proximity (base k) a = i"
    and sub: "\<And>a. ps_Exists ?c a \<Longrightarrow> ps_Exists ?kn a"
    and dep: "recalcDepth k = Returned (depth k)"
    by (simp_all add: kad_inv_alt)
  from conn obtain i where i: "i < maxBins" "p \<in> set (?c ! i)"
    using lenc by (auto simp: ps_Exists_iff)
  from binc [OF i] i have pin: "p \<in> set (?c ! ?b)" by simp
  have gone: "\<not> ps_Exists ?c1 p"
  proof
    assume "ps_Exists ?c1 p"
    then obtain j where j: "j < maxBins" "p \<in> set (?c1 ! j)"
      using lenc by (auto simp: ps_Exists_iff length_ps_Remove)
    show False
    proof (cases "j = ?b")
      case True
      with j lenc show False by (simp add: nth_ps_Remove po)
    next
      case False
      with j lenc have "p \<in> set (?c ! j)" by (simp add: nth_ps_Remove po)
      from binc [OF j(1) this] False show False by simp
    qed
  qed
  then show "\<not> ps_Exists (connectedPeers k1) p" by (simp add: k1c)
  have known: "ps_Exists ?kn p" by (rule sub [OF conn])
  from known obtain b where b: "b < maxBins" "p \<in> set (?kn ! b)"
    using lenk by (auto simp: ps_Exists_iff)
  from bink [OF b] have bb: "b = ?b" by simp
  from b bb bs have "(p, ?po) \<in> set ?vs"
    using in_visits_I [of ?b bs p ?kn] by simp
  then have "\<exists>v\<in>set ?vs. fst v = p" by force
  from split_list_first_prop [OF this] obtain pre v post where
    vs: "?vs = pre @ v # post" and fv: "fst v = p" and first: "\<forall>u\<in>set pre. fst u \<noteq> p"
    by blast
  have v: "v = (p, ?po)"
  proof -
    have "(fst v, snd v) \<in> set ?vs" by (simp add: vs)
    from in_visits_D [OF this] bs obtain b' where b': "b' < maxBins" "fst v \<in> set (?kn ! b')"
      "snd v = of_nat b'" by auto
    from bink [of b' p] b' fv have "b' = ?b" by simp
    with b' fv show ?thesis by (cases v) simp
  qed
  have run_pre: "run_visits ?pf pre k1 = Returned (False, k1)"
  proof (rule run_passive)
    fix q po' assume mem: "(q, po') \<in> set pre"
    with first have qp: "q \<noteq> p" by force
    from mem have "(q, po') \<in> set ?vs" by (simp add: vs)
    from in_visits_D [OF this] bs lenk obtain b' where "b' < length ?kn" "q \<in> set (?kn ! b')"
      by auto
    then have "ps_Exists ?kn q" by (auto simp: ps_Exists_iff)
    then have "q \<in> set (concat ?kn)" by (simp add: ps_Exists_def)
    from settled_D [OF others this qp]
    show "ps_Exists (connectedPeers k1) q
          \<or> (\<exists>ma. addressBook q = Some ma \<and> connect ma = None)"
      using ps_Exists_Remove_other [OF qp, of ?c ?po] by (auto simp: k1c)
  qed
  have "map length (ps_Add ?c1 p ?po) = map length ?c"
    by (rule lengths_Remove_Add) (simp_all add: po lenc b16 pin dist)
  then have "recalcDepth (k1\<lparr>connectedPeers := ps_Add ?c1 p ?po\<rparr>) = recalcDepth k"
    by (intro recalcDepth_lengths) simp
  with dep have rd2: "recalcDepth (k1\<lparr>connectedPeers := ps_Add ?c1 p ?po\<rparr>)
                      = Returned (depth k)" by simp
  have visit_p: "?pf p ?po k1 = Returned ((True, False, None),
        wake pick (k1\<lparr>connectedPeers := ps_Add ?c1 p ?po, depth := depth k\<rparr>))"
    using gone book dial rd2
    by (simp add: manage_visit_def binSaturated_def k1c Let_def)
  have run: "run_visits ?pf ?vs k1 = Returned (True,
        wake pick (k1\<lparr>connectedPeers := ps_Add ?c1 p ?po, depth := depth k\<rparr>))"
    by (simp add: vs run_visits_append run_pre v visit_p)
  show "each_in_bins ?pf (knownPeers k1) bs k1
         = Returned (None, wake pick (k1\<lparr>connectedPeers :=
               ps_Add (connectedPeers k1) p ?po, depth := depth k\<rparr>))"
    by (simp add: each_in_bins_run [OF manage_visit_plain] k1k k1c run)
qed

lemma depth_zero_if_few_recomputed:
  assumes "recalcDepth k1 = Returned d" and "connectedPeers k' = connectedPeers k1"
    and "depth k' = d"
  shows "depth_zero_if_few k'"
  using assms
  by (auto simp: depth_zero_if_few_def recalcDepth_def recalcDepth_with_def NeighborhoodDepth_def)

lemma depth_zero_if_few_Remove:
  "Remove pick k addr = Returned k' \<Longrightarrow> depth_zero_if_few k'"
  by (auto simp: Remove_def Let_def wake_fields split: outcome.splits
      intro!: depth_zero_if_few_recomputed)

lemma depth_zero_if_few_Disconnected:
  "Disconnected pick k addr = Returned k' \<Longrightarrow> depth_zero_if_few k'"
  by (auto simp: Disconnected_def Let_def wake_fields split: outcome.splits
      intro!: depth_zero_if_few_recomputed)

lemma depth_zero_if_few_manage_step:
  assumes "depth_zero_if_few k"
    and "manage_step addressBook connect recv pick k = Returned (Passed k')"
  shows "depth_zero_if_few k'"
proof -
  let ?k0 = "k\<lparr>manageC := False\<rparr>"
  from assms(2) have pass: "manage_pass addressBook connect pick ?k0 = Returned k'"
    by (auto simp: manage_step_def Let_def split: if_splits outcome.splits)
  have k0: "depth_zero_if_few ?k0"
    using assms(1) by (simp add: depth_zero_if_few_def NeighborhoodDepth_def)
  from manage_pass_cases [OF pass] show ?thesis
  proof
    assume "k' = ?k0"
    with k0 show ?thesis by simp
  next
    assume "\<exists>peer b ma x d. b < length (knownPeers ?k0) \<and> peer \<in> set (knownPeers ?k0 ! b)
            \<and> \<not> ps_Exists (connectedPeers ?k0) peer
            \<and> addressBook peer = Some ma \<and> connect ma = Some x
            \<and> recalcDepth (?k0\<lparr>connectedPeers := ps_Add (connectedPeers ?k0) peer (of_nat b)\<rparr>) = Returned d
            \<and> k' = wake pick (?k0\<lparr>connectedPeers := ps_Add (connectedPeers ?k0) peer (of_nat b), depth := d\<rparr>)"
    then obtain peer b d where
      rd: "recalcDepth (?k0\<lparr>connectedPeers := ps_Add (connectedPeers ?k0) peer (of_nat b)\<rparr>) = Returned d"
      and k': "k' = wake pick (?k0\<lparr>connectedPeers := ps_Add (connectedPeers ?k0) peer (of_nat b), depth := d\<rparr>)"
      by blast
    show ?thesis
      by (rule depth_zero_if_few_recomputed [OF rd]) (simp_all add: k' wake_fields)
  qed
qed

lemma Disconnected_kad_conn0: "Disconnected False kad_conn0 peer0 = Returned kad_known0"
  by code_simp

lemma Remove_kad_conn0: "Remove False kad_conn0 peer0 = Returned kad_known0"
  by code_simp

lemma kad_inv_kad_0_1_8_8: "kad_inv kad_0_1_8_8"
  by code_simp

lemma kad_inv_kad_2_1_2: "kad_inv kad_2_1_2 \<and> depth kad_2_1_2 = 2"
  by code_simp

lemma settled_kad_0_1_8_8: "settled book_all dial_ok kad_0_1_8_8 peer1"
  by code_simp

lemma Proximity_examples:
  "Proximity base0 peer0 = 0" "Proximity base0 peer1 = 1"
  "Proximity base0 peer8a = 8" "Proximity base0 peer8b = 8"
  "Proximity base0 peer0b = 0" "Proximity base0 peer2a = 2" "Proximity base0 peer2b = 2"
  by code_simp+

section \<open>The claims\<close>

subsection \<open>C1: the depth for more than two connected peers\<close>

text \<open>
  Claim C1 as stated fails at the manager with one peer in bin 0, one in bin 1 and two
  in bin 8. The running count of a scan in increasing order first reaches the
  watermark at bin 1, and no bin up to bin 1 is empty, so the claim has \<open>recalcDepth\<close>
  return 1; it returns 2, the shallowest hole.
\<close>

theorem recalcDepth_ascending_candidate_counterexample:
  "\<not> (\<exists>c. c < maxBins
         \<and> nnLowWatermark \<le> running_count (connectedPeers kad_0_1_8_8) c
         \<and> (\<forall>b<c. running_count (connectedPeers kad_0_1_8_8) b < nnLowWatermark)
         \<and> (if \<exists>b\<le>c. connectedPeers kad_0_1_8_8 ! b = []
              then \<exists>h. shallowest_empty (connectedPeers kad_0_1_8_8) h
                       \<and> recalcDepth kad_0_1_8_8 = Returned (of_nat h)
              else recalcDepth kad_0_1_8_8 = Returned (of_nat c)))"
proof
  let ?s = "connectedPeers kad_0_1_8_8"
  assume "\<exists>c. c < maxBins
         \<and> nnLowWatermark \<le> running_count ?s c
         \<and> (\<forall>b<c. running_count ?s b < nnLowWatermark)
         \<and> (if \<exists>b\<le>c. ?s ! b = []
              then \<exists>h. shallowest_empty ?s h \<and> recalcDepth kad_0_1_8_8 = Returned (of_nat h)
              else recalcDepth kad_0_1_8_8 = Returned (of_nat c))"
  then obtain c where reach: "nnLowWatermark \<le> running_count ?s c"
    and before: "\<forall>b<c. running_count ?s b < nnLowWatermark"
    and res: "if \<exists>b\<le>c. ?s ! b = []
              then \<exists>h. shallowest_empty ?s h \<and> recalcDepth kad_0_1_8_8 = Returned (of_nat h)
              else recalcDepth kad_0_1_8_8 = Returned (of_nat c)"
    by blast
  have rc0: "running_count ?s 0 = 1" and rc1: "running_count ?s 1 = 2"
    by (simp_all add: running_count_def kad_0_1_8_8_def)
  have c: "c = 1"
  proof -
    have "c \<noteq> 0"
    proof
      assume "c = 0"
      with reach rc0 show False by (simp add: nnLowWatermark_def)
    qed
    moreover have "\<not> 1 < c"
    proof
      assume "1 < c"
      with before have "running_count ?s 1 < nnLowWatermark" by blast
      with rc1 show False by (simp add: nnLowWatermark_def)
    qed
    ultimately show ?thesis by simp
  qed
  have full: "\<not> (\<exists>b\<le>c. ?s ! b = [])"
  proof
    assume "\<exists>b\<le>c. ?s ! b = []"
    then obtain b where "b \<le> 1" "?s ! b = []" using c by blast
    then have "b = 0 \<or> b = 1" by auto
    with \<open>?s ! b = []\<close> show False by (auto simp: kad_0_1_8_8_def)
  qed
  with res c have "recalcDepth kad_0_1_8_8 = Returned 1" by simp
  moreover have "recalcDepth kad_0_1_8_8 = Returned 2" by code_simp
  ultimately show False by simp
qed

text \<open>
  Claim C1, amended. For a connected set of \<open>maxBins\<close> bins with more than
  \<open>nnLowWatermark\<close> peers, let the candidate \<open>c\<close> be the bin at which the running peer
  count of a scan of the bins from the deepest to the shallowest first reaches the
  watermark. An empty bin at or before \<open>c\<close> exists exactly if the shallowest hole (the
  shallowest empty bin before the deepest occupied bin) exists and is not deeper than
  \<open>c\<close>. If there is such an empty bin, \<open>recalcDepth\<close> returns the shallowest hole;
  otherwise it returns \<open>c\<close>.
\<close>

theorem recalcDepth_candidate_or_shallowestEmpty:
  assumes len: "length (connectedPeers k) = maxBins"
    and big: "nnLowWatermark < ps_Length (connectedPeers k)"
  shows "\<exists>c. c < maxBins
           \<and> nnLowWatermark \<le> running_count_down (connectedPeers k) c
           \<and> (\<forall>b>c. running_count_down (connectedPeers k) b < nnLowWatermark)
           \<and> ((\<exists>b\<le>c. connectedPeers k ! b = []) = (\<exists>h\<le>c. shallowest_empty (connectedPeers k) h))
           \<and> (if \<exists>b\<le>c. connectedPeers k ! b = []
                then \<exists>h. shallowest_empty (connectedPeers k) h \<and> recalcDepth k = Returned (of_nat h)
                else recalcDepth k = Returned (of_nat c))"
proof -
  let ?s = "connectedPeers k"
  from EachBin_recalc [OF big] obtain c where
    cand: "first_reaching ?s (rev [0..<length ?s]) 0 = Some c" and
    scan: "EachBin recalc_visit ?s (0, 0) = Returned (None, (nnLowWatermark, of_nat c))"
    by blast
  note cf = candidate_facts_down [OF cand]
  from cf(1) len have c16: "c < maxBins" by simp
  from recalcDepth_with_candidate [where each = EachBin, OF len big scan c16 cf(4)]
    c16 cf(2,3)
  show ?thesis unfolding recalcDepth_def by (intro exI [of _ c]) simp
qed

text \<open>
  The theorem at the manager with one peer in bin 0, one in bin 1 and two in bin 8,
  where \<open>recalcDepth\<close> returns 2.
\<close>

theorem recalcDepth_candidate_or_shallowestEmpty_witness:
  "length (connectedPeers kad_0_1_8_8) = maxBins
   \<and> nnLowWatermark < ps_Length (connectedPeers kad_0_1_8_8)
   \<and> recalcDepth kad_0_1_8_8 = Returned 2
   \<and> (\<exists>c. c < maxBins
           \<and> nnLowWatermark \<le> running_count_down (connectedPeers kad_0_1_8_8) c
           \<and> (\<forall>b>c. running_count_down (connectedPeers kad_0_1_8_8) b < nnLowWatermark)
           \<and> ((\<exists>b\<le>c. connectedPeers kad_0_1_8_8 ! b = [])
                = (\<exists>h\<le>c. shallowest_empty (connectedPeers kad_0_1_8_8) h))
           \<and> (if \<exists>b\<le>c. connectedPeers kad_0_1_8_8 ! b = []
                then \<exists>h. shallowest_empty (connectedPeers kad_0_1_8_8) h
                         \<and> recalcDepth kad_0_1_8_8 = Returned (of_nat h)
                else recalcDepth kad_0_1_8_8 = Returned (of_nat c)))"
proof -
  have len: "length (connectedPeers kad_0_1_8_8) = maxBins"
    by (simp add: kad_0_1_8_8_def maxBins_def)
  have big: "nnLowWatermark < ps_Length (connectedPeers kad_0_1_8_8)"
    by (simp add: kad_0_1_8_8_def ps_Length_def nnLowWatermark_def)
  have two: "recalcDepth kad_0_1_8_8 = Returned 2" by code_simp
  from recalcDepth_candidate_or_shallowestEmpty [OF len big] len big two show ?thesis
    by (intro conjI)
qed

subsection \<open>C2: one peer in bin 0, one in bin 1, two in bin 8\<close>

text \<open>
  Claim C2 as stated fails. With a traversal of the connected set in ascending bin
  order, \<open>recalcDepth\<close> does not return 2 for the manager with one peer connected in bin
  0, one in bin 1 and two in bin 8: the second peer of the scan is the one of bin 1,
  so the candidate is 1, and the shallowest hole, bin 2, is deeper.
\<close>

theorem recalcDepth_ascending_0_1_8_8_is_not_2:
  "recalcDepth_with EachBinRev kad_0_1_8_8 \<noteq> Returned 2"
  by code_simp

text \<open>
  Claim C2, amended. With exactly one connected peer in bin 0, one in bin 1 and two in
  bin 8, \<open>recalcDepth\<close> returns 2: its scan \<open>EachBin\<close> visits the bins from the deepest,
  the candidate is bin 8 and the shallowest hole, bin 2, is not deeper. With a
  traversal in ascending bin order it would return 1.
\<close>

theorem recalcDepth_0_1_8_8:
  assumes "connectedPeers k = [[a], [b], [], [], [], [], [], [], [c, d], [], [], [], [], [], [], []]"
  shows "recalcDepth k = Returned 2 \<and> recalcDepth_with EachBinRev k = Returned 1"
  using assms
  by (simp add: recalcDepth_def recalcDepth_with_def ps_Length_def
      nnLowWatermark_def ShallowestEmpty_def shallowest_hole_def EachBin_def EachBinRev_def
      recalc_visit_def upt_rec)

text \<open>The theorem at the manager \<open>kad_0_1_8_8\<close>.\<close>

theorem recalcDepth_0_1_8_8_witness:
  "connectedPeers kad_0_1_8_8 =
     [[peer0], [peer1], [], [], [], [], [], [], [peer8a, peer8b], [], [], [], [], [], [], []]
   \<and> recalcDepth kad_0_1_8_8 = Returned 2
   \<and> recalcDepth_with EachBinRev kad_0_1_8_8 = Returned 1"
proof -
  have c: "connectedPeers kad_0_1_8_8 =
     [[peer0], [peer1], [], [], [], [], [], [], [peer8a, peer8b], [], [], [], [], [], [], []]"
    by (simp add: kad_0_1_8_8_def)
  from recalcDepth_0_1_8_8 [OF c] c show ?thesis by (intro conjI) simp_all
qed

subsection \<open>C3: depth 0 at or below the low watermark\<close>

text \<open>
  Claim C3. In every reachable state of the manager, if the connected set has at most
  \<open>nnLowWatermark\<close> peers then the stored depth, which \<open>NeighborhoodDepth\<close> returns, is
  0. \<open>Disconnected\<close> and \<open>Remove\<close> establish this from any state, and a turn of
  \<open>manage\<close> (with or without a successful dial) preserves it.
\<close>

theorem depth_zero_at_or_below_watermark:
  "(reachable k \<longrightarrow> depth_zero_if_few k)
   \<and> (Disconnected pick k addr = Returned k1 \<longrightarrow> depth_zero_if_few k1)
   \<and> (Remove pick k addr = Returned k2 \<longrightarrow> depth_zero_if_few k2)
   \<and> (depth_zero_if_few k \<longrightarrow>
        manage_step addressBook connect recv pick k = Returned (Passed k3) \<longrightarrow>
        depth_zero_if_few k3)"
proof (intro conjI impI)
  assume "reachable k"
  from reachable_kad_inv [OF this] have "recalcDepth k = Returned (depth k)"
    by (simp add: kad_inv_alt)
  then show "depth_zero_if_few k"
    by (rule depth_zero_if_few_recomputed) simp_all
next
  assume "Disconnected pick k addr = Returned k1"
  then show "depth_zero_if_few k1" by (rule depth_zero_if_few_Disconnected)
next
  assume "Remove pick k addr = Returned k2"
  then show "depth_zero_if_few k2" by (rule depth_zero_if_few_Remove)
next
  assume "depth_zero_if_few k"
    and "manage_step addressBook connect recv pick k = Returned (Passed k3)"
  then show "depth_zero_if_few k3" by (rule depth_zero_if_few_manage_step)
qed

text \<open>
  The theorem at the manager \<open>kad_conn0\<close>, reached from \<open>New\<close> by \<open>AddPeer\<close> of
  \<open>peer0\<close> and one turn of \<open>manage\<close>; it has one connected peer and depth 0.
\<close>

theorem depth_zero_at_or_below_watermark_witness:
  "reachable kad_conn0
   \<and> ps_Length (connectedPeers kad_conn0) \<le> nnLowWatermark \<and> depth kad_conn0 = 0
   \<and> depth_zero_if_few kad_conn0
   \<and> Disconnected False kad_conn0 peer0 = Returned kad_known0
   \<and> Remove False kad_conn0 peer0 = Returned kad_known0
   \<and> depth_zero_if_few kad_known0
   \<and> manage_step book_all dial_ok False False kad_known0 = Returned (Passed kad_conn0)"
proof -
  note thm1 = depth_zero_at_or_below_watermark
    [of kad_conn0 False peer0 kad_known0 kad_known0 book_all dial_ok False kad_conn0]
  have few: "ps_Length (connectedPeers kad_conn0) \<le> nnLowWatermark"
    by (simp add: kad_conn0_def ps_Length_def nnLowWatermark_def)
  have d0: "depth kad_conn0 = 0" by (simp add: kad_conn0_def)
  from thm1 reachable_kad_conn0 have a: "depth_zero_if_few kad_conn0" by blast
  from thm1 Remove_kad_conn0 have b: "depth_zero_if_few kad_known0" by blast
  from reachable_kad_conn0 few d0 a b Disconnected_kad_conn0 Remove_kad_conn0
    manage_step_kad_known0
  show ?thesis by (intro conjI)
qed

subsection \<open>C4: binSaturated\<close>

text \<open>
  Claim C4 fails on the code. \<open>binSaturated\<close> returns false for every bin: for bin 0 and
  depth 2 it returns false although bin 0, shallower than the depth, holds two
  connected peers.
\<close>

theorem binSaturated_full_shallow_bin:
  "length (connectedPeers kad_2_1_2 ! 0) = 2 \<and> (0 :: uint8) < 2
   \<and> binSaturated kad_2_1_2 0 2 = False
   \<and> binSaturated kad_2_1_2 0 (depth kad_2_1_2) = False"
  by (simp add: kad_2_1_2_def binSaturated_def)

subsection \<open>C5: a failed address resolution\<close>

text \<open>
  Claim C5 fails on the code. The manager knows \<open>peer0\<close> and a wake-up is waiting; the
  address book has no entry. The turn of \<open>manage\<close> panics: the pass neither skips the
  peer nor goes on.
\<close>

theorem manage_panics_on_failed_resolution:
  "manage_step book_none dial_ok recv pick kad_known0 = Panicked ''err''"
  by (simp add: manage_step_def manage_pass_def EachBinRev_def manage_visit_def kad_known0_def
      binSaturated_def book_none_def ps_Exists_def upt_rec)

subsection \<open>C6: AddPeer of a registered address\<close>

text \<open>
  Claim C6 fails on the code. \<open>AddPeer\<close> of \<open>peer0\<close> on a new manager returns nil; the
  second \<open>AddPeer\<close> of the same address panics instead of returning an error.
\<close>

theorem AddPeer_twice_panics:
  "AddPeer False (New base0) peer0 = Returned (None, kad_known0)
   \<and> AddPeer False kad_known0 peer0 = Panicked ''peer already connected''"
  by code_simp

subsection \<open>C7: a pass after a successful dial\<close>

text \<open>
  Claim C7 fails on the code. After \<open>AddPeer\<close> of \<open>peer0\<close> and of \<open>peer1\<close> the manager
  knows both peers and is connected to neither; both can be resolved and dialled, and
  no bin is saturated. The pass that the wake-up starts dials the first peer the
  traversal reaches, records it, and ends, because the callback returns stop = true
  after a successful dial: the other peer, a candidate the traversal has not yet
  visited, is not connected after the pass. This does not rest on the order of the
  bins: a pass from the shallowest bin connects \<open>peer0\<close> and leaves \<open>peer1\<close>, a pass
  from the deepest bin connects \<open>peer1\<close> and leaves \<open>peer0\<close>. The source says, right
  above that return, "so lets continue to the next peer in the bin and do the checks
  again", with the former \<open>return false, false, nil\<close> commented out beside it.
\<close>

theorem manage_pass_stops_after_dial:
  "AddPeer False (New base0) peer0 = Returned (None, kad_known0)
   \<and> AddPeer False kad_known0 peer1 = Returned (None, kad_known01\<lparr>manageC := True\<rparr>)
   \<and> manage_step book_all dial_ok True False (kad_known01\<lparr>manageC := True\<rparr>)
       = Returned (Passed kad_known01_conn0)
   \<and> manage_pass book_all dial_ok False kad_known01 = Returned kad_known01_conn0
   \<and> ps_Exists (knownPeers kad_known01) peer1
   \<and> \<not> ps_Exists (connectedPeers kad_known01) peer1
   \<and> \<not> binSaturated kad_known01_conn0 1 (depth kad_known01_conn0)
   \<and> book_all peer1 = Some ''/ip4/127.0.0.1/tcp/7070''
   \<and> dial_ok ''/ip4/127.0.0.1/tcp/7070'' = Some []
   \<and> \<not> ps_Exists (connectedPeers kad_known01_conn0) peer1
   \<and> each_in_bins (manage_visit book_all dial_ok False) (knownPeers kad_known01)
         (rev [0..<maxBins]) kad_known01 = Returned (None, kad_known01_conn1)
   \<and> ps_Exists (knownPeers kad_known01) peer0
   \<and> \<not> ps_Exists (connectedPeers kad_known01) peer0
   \<and> \<not> binSaturated kad_known01_conn1 0 (depth kad_known01_conn1)
   \<and> book_all peer0 = Some ''/ip4/127.0.0.1/tcp/7070''
   \<and> \<not> ps_Exists (connectedPeers kad_known01_conn1) peer0"
  by code_simp

subsection \<open>C8: Remove, then the same peer again\<close>

text \<open>
  Claim C8 as stated fails. \<open>peer1\<close> is connected; after \<open>Remove\<close> of \<open>peer1\<close>,
  \<open>AddPeer\<close> of \<open>peer1\<close> does not succeed: the peer is still in the known set.
\<close>

theorem Remove_then_AddPeer_counterexample:
  "ps_Exists (connectedPeers kad_0_1_8_8) peer1
   \<and> Remove False kad_0_1_8_8 peer1 = Returned kad_0_8_8
   \<and> AddPeer False kad_0_8_8 peer1 = Panicked ''peer already connected''"
  by code_simp

text \<open>
  Claim C8, amended. Let \<open>p\<close> be a connected peer of a well-formed manager that is not
  closed. \<open>Remove\<close> of \<open>p\<close> returns; \<open>p\<close> is then no longer connected but still known,
  so \<open>AddPeer\<close> of \<open>p\<close> does not return successfully. \<open>Remove\<close> has posted a wake-up;
  if the pass it starts passes over every other known peer and the dial of \<open>p\<close>
  succeeds, then \<open>p\<close> is connected again and the depth is the one that held before the
  removal.
\<close>

theorem Remove_then_redial_restores_depth:
  assumes inv: "kad_inv k" and op: "\<not> quit k"
    and conn: "ps_Exists (connectedPeers k) p"
    and others: "settled addressBook connect k p"
    and book: "addressBook p = Some ma" and dial: "connect ma = Some x"
  shows "\<exists>k1 k2. Remove pick1 k p = Returned k1
           \<and> \<not> ps_Exists (connectedPeers k1) p
           \<and> ps_Exists (knownPeers k1) p
           \<and> (\<forall>e k'. AddPeer pick2 k1 p \<noteq> Returned (e, k'))
           \<and> manageC k1
           \<and> manage_step addressBook connect recv pick3 k1 = Returned (Passed k2)
           \<and> ps_Exists (connectedPeers k2) p
           \<and> depth k2 = depth k \<and> NeighborhoodDepth k2 = NeighborhoodDepth k"
proof -
  let ?po = "of_nat (Proximity (base k) p) :: uint8"
  let ?c1 = "ps_Remove (connectedPeers k) p ?po"
  have b16: "Proximity (base k) p < maxBins" by (rule Proximity_less_maxBins)
  have po: "unat ?po = Proximity (base k) p" by (simp add: unat_of_nat_bin b16)
  from inv have lenc: "length (connectedPeers k) = maxBins"
    and lenk: "length (knownPeers k) = maxBins"
    by (simp_all add: kad_inv_alt)
  \<comment> \<open>Remove\<close>
  from recalcDepth_returns obtain d1 where
    rd1: "recalcDepth (k\<lparr>connectedPeers := ?c1\<rparr>) = Returned d1" by blast
  define k1 where "k1 = wake pick1 (k\<lparr>connectedPeers := ?c1, depth := d1\<rparr>)"
  have rem: "Remove pick1 k p = Returned k1"
    by (simp add: Remove_def Let_def rd1 k1_def)
  have k1c: "connectedPeers k1 = ?c1" and k1k: "knownPeers k1 = knownPeers k"
    and k1q: "quit k1 = quit k"
    by (simp_all add: k1_def wake_fields)
  have known: "ps_Exists (knownPeers k) p" using inv conn by (simp add: kad_inv_alt)
  have mc: "manageC k1" using op by (simp add: k1_def manageC_wake)
  \<comment> \<open>the pass that the wake-up starts\<close>
  define k1' where "k1' = k1\<lparr>manageC := False\<rparr>"
  have k1'c: "connectedPeers k1' = ?c1" and k1'k: "knownPeers k1' = knownPeers k"
    by (simp_all add: k1'_def k1c k1k)
  define k2 where "k2 = wake pick3 (k1'\<lparr>connectedPeers := ps_Add (connectedPeers k1') p ?po,
                                          depth := depth k\<rparr>)"
  have bs: "set [0..<length (knownPeers k1')] = {0..<maxBins}" by (simp add: k1'k lenk)
  note redial = redial_any_order [OF inv conn others book dial bs k1'c k1'k]
  from redial(2) have gone: "\<not> ps_Exists (connectedPeers k1) p" by (simp add: k1'c k1c)
  have add: "AddPeer pick2 k1 p = Panicked ''peer already connected''"
    by (simp add: AddPeer_def k1k known)
  have pass: "manage_pass addressBook connect pick3 k1' = Returned k2"
    using redial(1) [of pick3] by (simp add: manage_pass_def EachBinRev_def k2_def)
  have step: "manage_step addressBook connect recv pick3 k1 = Returned (Passed k2)"
    using op mc pass by (simp add: manage_step_def k1q k1'_def)
  have k2d: "depth k2 = depth k" by (simp add: k2_def wake_fields)
  have k2c: "ps_Exists (connectedPeers k2) p"
    by (simp add: k2_def wake_fields k1'c ps_Exists_Add length_ps_Remove po lenc b16)
  from rem gone known add mc step k2c k2d show ?thesis
    by (intro exI [of _ k1] exI [of _ k2]) (simp add: k1k NeighborhoodDepth_def)
qed

text \<open>
  The theorem at the manager \<open>kad_0_1_8_8\<close> and the peer \<open>peer1\<close>.
\<close>

theorem Remove_then_redial_restores_depth_witness:
  "kad_inv kad_0_1_8_8 \<and> \<not> quit kad_0_1_8_8
   \<and> ps_Exists (connectedPeers kad_0_1_8_8) peer1
   \<and> settled book_all dial_ok kad_0_1_8_8 peer1
   \<and> book_all peer1 = Some ''/ip4/127.0.0.1/tcp/7070''
   \<and> dial_ok ''/ip4/127.0.0.1/tcp/7070'' = Some []
   \<and> (\<exists>k1 k2. Remove False kad_0_1_8_8 peer1 = Returned k1
           \<and> \<not> ps_Exists (connectedPeers k1) peer1
           \<and> ps_Exists (knownPeers k1) peer1
           \<and> (\<forall>e k'. AddPeer False k1 peer1 \<noteq> Returned (e, k'))
           \<and> manageC k1
           \<and> manage_step book_all dial_ok False False k1 = Returned (Passed k2)
           \<and> ps_Exists (connectedPeers k2) peer1
           \<and> depth k2 = depth kad_0_1_8_8
           \<and> NeighborhoodDepth k2 = NeighborhoodDepth kad_0_1_8_8)"
proof -
  have q: "\<not> quit kad_0_1_8_8" by (simp add: kad_0_1_8_8_def)
  have c: "ps_Exists (connectedPeers kad_0_1_8_8) peer1"
    by (simp add: kad_0_1_8_8_def ps_Exists_def)
  have b: "book_all peer1 = Some ''/ip4/127.0.0.1/tcp/7070''" by (simp add: book_all_def)
  have d: "dial_ok ''/ip4/127.0.0.1/tcp/7070'' = Some []" by (simp add: dial_ok_def)
  from Remove_then_redial_restores_depth [OF kad_inv_kad_0_1_8_8 q c settled_kad_0_1_8_8 b d,
      of False False False False]
    kad_inv_kad_0_1_8_8 q c settled_kad_0_1_8_8 b d
  show ?thesis by (intro conjI)
qed

subsection \<open>C9: ClosestPeer\<close>

text \<open>
  Claim C9 fails on the code. \<open>ClosestPeer\<close> panics on every call, whether or not a
  peer is connected: it returns neither a peer nor a NotFound error.
\<close>

theorem ClosestPeer_not_implemented:
  "ClosestPeer k addr = Panicked ''not implemented''"
  by (simp add: ClosestPeer_def)

subsection \<open>C10: AddPeer leaves the connected set and the depth\<close>

text \<open>
  Claim C10. For an address that is neither connected nor known, \<open>AddPeer\<close> returns
  nil, and the connected set and the depth are as before the call: only the known set
  changes (the address is added at the bin of its proximity) and, unless the manager
  is closed, a wake-up is waiting afterwards.
\<close>

theorem AddPeer_frame:
  assumes "\<not> ps_Exists (connectedPeers k) addr" and "\<not> ps_Exists (knownPeers k) addr"
  shows "\<exists>k'. AddPeer pick k addr = Returned (None, k')
            \<and> connectedPeers k' = connectedPeers k \<and> depth k' = depth k
            \<and> NeighborhoodDepth k' = NeighborhoodDepth k
            \<and> base k' = base k \<and> quit k' = quit k
            \<and> knownPeers k' = ps_Add (knownPeers k) addr (of_nat (Proximity (base k) addr))
            \<and> (quit k \<or> manageC k')"
  using assms by (simp add: AddPeer_def wake_def NeighborhoodDepth_def Let_def)

text \<open>
  The theorem at the manager \<open>kad_conn0\<close> and the address \<open>peer1\<close>.
\<close>

theorem AddPeer_frame_witness:
  "\<not> ps_Exists (connectedPeers kad_conn0) peer1 \<and> \<not> ps_Exists (knownPeers kad_conn0) peer1
   \<and> (\<exists>k'. AddPeer False kad_conn0 peer1 = Returned (None, k')
          \<and> connectedPeers k' = connectedPeers kad_conn0 \<and> depth k' = depth kad_conn0
          \<and> NeighborhoodDepth k' = NeighborhoodDepth kad_conn0
          \<and> base k' = base kad_conn0 \<and> quit k' = quit kad_conn0
          \<and> knownPeers k'
              = ps_Add (knownPeers kad_conn0) peer1 (of_nat (Proximity (base kad_conn0) peer1))
          \<and> (quit kad_conn0 \<or> manageC k'))"
proof -
  have c: "\<not> ps_Exists (connectedPeers kad_conn0) peer1" by code_simp
  have n: "\<not> ps_Exists (knownPeers kad_conn0) peer1" by code_simp
  from AddPeer_frame [OF c n, of False] c n show ?thesis by (intro conjI)
qed

end
